theory Spec2Isabelle
  imports Complex_Main "HOL-Library.Word"
begin

section \<open>Numbers and vectors\<close>

text \<open>
  The engine computes in C++ \<^verbatim>\<open>float\<close> and \<^verbatim>\<open>double\<close>. The scalar type is the type
  parameter \<open>'r\<close> of the whole development. Only the syntactic classes of \<open>+\<close>, \<open>-\<close>, \<open>*\<close>,
  \<open>/\<close>, \<open>0\<close> and \<open><\<close> are asked of it, with no algebraic law, so every theorem below holds
  for any arithmetic that has these operations, rounding or not. The examples instantiate
  \<open>'r\<close> with \<open>real\<close>.

  \<open>vec3\<close> is \<^verbatim>\<open>Vec3\<close> (an Eigen 3-vector). Sum, difference, \<^verbatim>\<open>v *= s\<close> and \<^verbatim>\<open>v /= s\<close> act
  on each coordinate. Eigen's reductions and \<^verbatim>\<open>normalize()\<close> are library code and are
  taken as parameters (record \<open>Env\<close> below).
\<close>

datatype 'r vec3 = Vec3 (vx: 'r) (vy: 'r) (vz: 'r)

instantiation vec3 :: (plus) plus
begin
definition plus_vec3 :: "'a vec3 \<Rightarrow> 'a vec3 \<Rightarrow> 'a vec3" where
  "plus_vec3 a b = Vec3 (vx a + vx b) (vy a + vy b) (vz a + vz b)"
instance ..
end

instantiation vec3 :: (minus) minus
begin
definition minus_vec3 :: "'a vec3 \<Rightarrow> 'a vec3 \<Rightarrow> 'a vec3" where
  "minus_vec3 a b = Vec3 (vx a - vx b) (vy a - vy b) (vz a - vz b)"
instance ..
end

definition scale :: "('r::times) vec3 \<Rightarrow> 'r \<Rightarrow> 'r vec3" where
  "scale v s = Vec3 (vx v * s) (vy v * s) (vz v * s)"

definition vdiv :: "('r::inverse) vec3 \<Rightarrow> 'r \<Rightarrow> 'r vec3" where
  "vdiv v s = Vec3 (vx v / s) (vy v / s) (vz v / s)"

section \<open>Data model\<close>

text \<open>
  A \<^verbatim>\<open>Particle*\<close> is modelled as a natural number, the address of the Particle. The
  vector \<^verbatim>\<open>cells\<close> of a class is the pair of \<open>cells_size\<close> (\<^verbatim>\<open>cells.size()\<close>) and \<open>cells\<close>,
  where \<open>cells i\<close> is the Particle that \<^verbatim>\<open>cells[i]\<close> points to: the Particle pushed as the
  \<open>i\<close>-th element has address \<open>i\<close>. The ring \<open>links\<close> holds addresses. The declaration of
  \<^verbatim>\<open>Particle\<close> is not among the sources; the fields are those the sources read and write,
  with scalar fields of type \<open>'r\<close> and counters of type \<open>int\<close>.
\<close>

record 'r Particle =
  index :: int
  position :: "'r vec3"
  normal :: "'r vec3"
  delta :: "'r vec3"
  links :: "nat list"
  food :: 'r
  age :: int
  generation :: int
  inherited :: 'r
  area :: 'r
  curvature :: 'r
  collisions :: int
  collision_target :: "'r vec3"
  frozen :: bool
  environs :: bool
  special :: bool
  special_baby :: bool

record 'r Population =
  cells_size :: nat
  cells :: "nat \<Rightarrow> 'r Particle"

text \<open>
  Modelled from the spec: \<^verbatim>\<open>Particle::connected_to\<close> and \<^verbatim>\<open>Particle::add_link\<close> are not
  among the sources. Section 4.1 of the spec: \<^verbatim>\<open>connected_to(other)\<close> is the membership
  test against \<open>links\<close>, \<^verbatim>\<open>add_link(other)\<close> appends \<open>other\<close> to the ring.
\<close>

definition connected_to :: "'r Particle \<Rightarrow> nat \<Rightarrow> bool" where
  "connected_to p q = (q \<in> set (links p))"

definition add_link :: "'r Particle \<Rightarrow> nat \<Rightarrow> 'r Particle" where
  "add_link p q = p\<lparr>links := links p @ [q]\<rparr>"

section \<open>PlyLoader\<close>

record 'r PlyLoader = "'r Population" +
  m_filename :: string

text \<open>
  \<^verbatim>\<open>PlyLoader::connect(i, j)\<close>. Reading \<^verbatim>\<open>cells[i]\<close> past the end of the vector is
  undefined in C++; the model returns \<open>None\<close> there.
\<close>

definition connect :: "'r PlyLoader \<Rightarrow> nat \<Rightarrow> nat \<Rightarrow> 'r PlyLoader option" where
  "connect L i j =
     (if i < cells_size L \<and> j < cells_size L then
        let L1 = (if \<not> connected_to (cells L i) j
                  then L\<lparr>cells := (cells L)(i := add_link (cells L i) j)\<rparr> else L);
            L2 = (if \<not> connected_to (cells L1 j) i
                  then L1\<lparr>cells := (cells L1)(j := add_link (cells L1 j) i)\<rparr> else L1)
        in Some L2
      else None)"

section \<open>Simulation: initialisation of the worker count\<close>

text \<open>
  The first statement of \<^verbatim>\<open>Simulation::init\<close>:
  \<^verbatim>\<open>num_threads = std::max(uint(1), std::thread::hardware_concurrency() - 2)\<close>.
  \<^verbatim>\<open>hardware_concurrency()\<close> returns \<^verbatim>\<open>unsigned int\<close>, so the subtraction and the maximum
  are those of 32-bit unsigned arithmetic.
\<close>

definition init_num_threads :: "32 word \<Rightarrow> 32 word" where
  "init_num_threads hardware_concurrency = max 1 (hardware_concurrency - 2)"

text \<open>The worker count as the spec writes it, over the integers.\<close>

definition worker_count_spec :: "int \<Rightarrow> int" where
  "worker_count_spec hardware_parallelism = max 1 (hardware_parallelism - 2)"

section \<open>Parameters\<close>

datatype Shape = SPHERE | PLANE | ENVIRONMENT | MESH

datatype Food = RANDOM | AREA | X_COORD | RADIAL | COLLISIONS | CURVATURE | INHERIT | HYBRID
  | SHIFT | TENTACLE

datatype Split = ZERO | LONG

record 'r Parameters =
  init_shape :: Shape
  food_mode :: Food
  split_mode :: Split
  threshold :: 'r
  max_degree :: int
  spring_factor :: 'r
  planar_factor :: 'r
  bulge_factor :: 'r
  spring_length :: 'r
  collision_radius :: 'r
  collision_factor :: 'r
  collision_age_threshold :: int
  dampening :: 'r
  curvature_factor :: 'r

section \<open>Code outside the sources\<close>

text \<open>
  The sources are \<^verbatim>\<open>simulation.cpp\<close> and \<^verbatim>\<open>ply_loader.cpp\<close>. What they call and do not
  define is a field of the record \<open>Env\<close>, and every function of the model takes an \<open>Env\<close>:
  theorems hold for every value of these fields.
  \<^item> \<open>MAX_POP\<close>, \<open>RAND_MAX\<close>: the macros. \<open>rand\<close>: \<^verbatim>\<open>std::rand()\<close> as a function of the
    generator state, returning the number and the next state.
  \<^item> \<open>squaredNorm\<close>, \<open>vec_norm\<close>, \<open>normalized\<close>: Eigen's \<^verbatim>\<open>squaredNorm()\<close>, \<^verbatim>\<open>norm()\<close> and
    the vector \<^verbatim>\<open>normalize()\<close> leaves. \<open>pow\<close>, \<open>isnan\<close>: \<^verbatim>\<open>std::pow\<close>, \<^verbatim>\<open>std::isnan\<close>.
    \<open>to_float\<close>: the conversion to \<^verbatim>\<open>float\<close>. \<open>from_int\<close>: the conversion of an integer.
    \<open>lit\<close>: the value of a decimal literal.
  \<^item> \<open>Particle_init\<close>: the field values the constructor \<^verbatim>\<open>Particle(int)\<close> gives.
    \<open>good_loop\<close>, \<open>Particle_split\<close>, \<open>calculate\<close>, \<open>Particle_update\<close>,
    \<open>calculate_curvature\<close>: the methods of \<^verbatim>\<open>Particle\<close>, each given the Particles (by
    address) and the address of \<^verbatim>\<open>this\<close>. \<open>Particle_split cs parent child long\<close> returns
    all Particles, since a split rewires the rings of the neighbours. A method of
    \<^verbatim>\<open>Particle\<close> cannot reach the vector \<^verbatim>\<open>Simulation::cells\<close>, so none changes its size.
  \<^item> \<open>searchCapacityLimitedBall pts center r2 k\<close>: the query of the k-d tree built from
    the points \<open>pts\<close> (position and payload), returning payloads.
    \<open>get_neighbors mx mn r pts p\<close>: the neighbour indices the grid built by
    \<^verbatim>\<open>make_grid\<close> returns for the Particle \<open>p\<close>.

  Modelled from the spec: \<^verbatim>\<open>Particle::calculate\<close>, \<^verbatim>\<open>Particle::update\<close> and
  \<^verbatim>\<open>Particle::calculate_curvature\<close> are not among the sources. Section 5 of the spec: in
  a phase a cell's method writes only fields of its own cell, so \<open>calculate\<close> and
  \<open>Particle_update\<close> return the new value of their own Particle. Section 4.1:
  \<^verbatim>\<open>calculate_curvature()\<close> recomputes \<open>curvature\<close> and \<open>area\<close>, so \<open>calculate_curvature\<close>
  returns this pair.
\<close>

record 'r Env =
  MAX_POP :: nat
  RAND_MAX :: int
  rand :: "nat \<Rightarrow> int \<times> nat"
  squaredNorm :: "'r vec3 \<Rightarrow> 'r"
  vec_norm :: "'r vec3 \<Rightarrow> 'r"
  normalized :: "'r vec3 \<Rightarrow> 'r vec3"
  pow :: "'r \<Rightarrow> 'r \<Rightarrow> 'r"
  isnan :: "'r \<Rightarrow> bool"
  to_float :: "'r \<Rightarrow> 'r"
  from_int :: "int \<Rightarrow> 'r"
  lit :: "rat \<Rightarrow> 'r"
  Particle_init :: "'r Particle"
  good_loop :: "(nat \<Rightarrow> 'r Particle) \<Rightarrow> nat \<Rightarrow> bool"
  Particle_split :: "(nat \<Rightarrow> 'r Particle) \<Rightarrow> nat \<Rightarrow> nat \<Rightarrow> bool \<Rightarrow> nat \<Rightarrow> 'r Particle"
  calculate :: "(nat \<Rightarrow> 'r Particle) \<Rightarrow> nat \<Rightarrow> 'r \<Rightarrow> 'r \<Rightarrow> 'r \<Rightarrow> 'r \<Rightarrow> 'r Particle"
  Particle_update :: "(nat \<Rightarrow> 'r Particle) \<Rightarrow> nat \<Rightarrow> 'r \<Rightarrow> 'r Particle"
  calculate_curvature :: "(nat \<Rightarrow> 'r Particle) \<Rightarrow> nat \<Rightarrow> 'r \<times> 'r"
  searchCapacityLimitedBall :: "('r vec3 \<times> nat) list \<Rightarrow> 'r vec3 \<Rightarrow> 'r \<Rightarrow> nat \<Rightarrow> nat list"
  get_neighbors :: "'r vec3 \<Rightarrow> 'r vec3 \<Rightarrow> 'r \<Rightarrow> ('r vec3 \<times> int) list \<Rightarrow> 'r Particle \<Rightarrow> nat list"

text \<open>
  Modelled from the spec: the constructor \<^verbatim>\<open>Particle(int)\<close> is not among the sources.
  Sections 3 and 6 of the spec: a cell created with \<^verbatim>\<open>new Particle(k)\<close> has \<open>index\<close> \<open>k\<close>.
  \<^verbatim>\<open>Particle::get_num_links\<close>, not among the sources either, is the size of the ring
  (section 3, degree bound).
\<close>

definition new_Particle :: "'r Env \<Rightarrow> int \<Rightarrow> 'r Particle" where
  "new_Particle E k = (Particle_init E)\<lparr>index := k\<rparr>"

definition get_num_links :: "'r Particle \<Rightarrow> int" where
  "get_num_links p = int (length (links p))"

section \<open>Simulation\<close>

text \<open>
  The state of \<^verbatim>\<open>Simulation\<close>: the vector \<open>cells\<close>, the parameters, the counters, and the
  state of the generator behind \<^verbatim>\<open>std::rand\<close>. Sizes and the frame counter are natural
  numbers (the populations the engine is built for are far below \<open>2^31\<close>). Output to
  \<^verbatim>\<open>std::cout\<close> is not modelled.
\<close>

record 'r Simulation = "'r Population" +
  param :: "'r Parameters"
  frame_num :: nat
  frozen_num :: nat
  num_threads :: nat
  rand_state :: nat

definition set_cell :: "'r Simulation \<Rightarrow> nat \<Rightarrow> 'r Particle \<Rightarrow> 'r Simulation" where
  "set_cell s a p = s\<lparr>cells := (cells s)(a := p)\<rparr>"

definition push_back :: "'r Simulation \<Rightarrow> 'r Particle \<Rightarrow> 'r Simulation" where
  "push_back s p = s\<lparr>cells_size := cells_size s + 1, cells := (cells s)(cells_size s := p)\<rparr>"

subsection \<open>Growth: adding food\<close>

text \<open>The body of the loop of \<^verbatim>\<open>Simulation::add_food\<close>, for the cell at address \<open>a\<close>.\<close>

definition add_food_cell ::
  "('r::{zero,plus,minus,times,inverse,ord}) Env \<Rightarrow> nat \<Rightarrow> 'r Simulation \<Rightarrow> 'r Simulation" where
  "add_food_cell E a s =
     (let p = cells s a in
      if environs p \<or> frozen p then set_cell s a (p\<lparr>food := 0\<rparr>)
      else (case food_mode (param s) of
          RANDOM \<Rightarrow>
            (let (r, g) = rand E (rand_state s);
                 u = to_float E (to_float E (from_int E r) / to_float E (from_int E (RAND_MAX E)))
             in set_cell (s\<lparr>rand_state := g\<rparr>) a (p\<lparr>food := food p + u\<rparr>))
        | AREA \<Rightarrow> set_cell s a (p\<lparr>food := food p + area p\<rparr>)
        | X_COORD \<Rightarrow> set_cell s a (p\<lparr>food := food p + (vx (position p) + from_int E 50)\<rparr>)
        | RADIAL \<Rightarrow>
            (let dist0 = to_float E (vec_norm E (position p));
                 dist1 = (if dist0 < lit E (1 / 2) then to_float E (lit E (1 / 2)) else dist0);
                 dist2 = to_float E (pow E dist1 (from_int E 2))
             in set_cell s a (p\<lparr>food := food p + lit E 100 / dist2\<rparr>))
        | COLLISIONS \<Rightarrow>
            (if 0 < collisions p
             then set_cell s a (p\<lparr>food := food p + lit E 1 / from_int E (collisions p)\<rparr>)
             else s)
        | CURVATURE \<Rightarrow>
            (let (c, ar) = calculate_curvature E (cells s) a;
                 p1 = p\<lparr>curvature := c, area := ar\<rparr>;
                 amount = curvature p1
             in if \<not> isnan E amount \<and> 0 < amount
                then set_cell s a (p1\<lparr>food := food p1 + pow E amount (curvature_factor (param s))\<rparr>)
                else set_cell s a p1)
        | INHERIT \<Rightarrow> set_cell s a (p\<lparr>food := food p + inherited p\<rparr>)
        | HYBRID \<Rightarrow>
            (let (c, ar) = calculate_curvature E (cells s) a;
                 p1 = p\<lparr>curvature := c, area := ar\<rparr>;
                 amount = to_float E (curvature p1)
             in if \<not> isnan E amount \<and> 0 < amount
                then set_cell s a (p1\<lparr>food := food p1 + amount * area p1\<rparr>)
                else set_cell s a p1)
        | SHIFT \<Rightarrow>
            (if frame_num s < 250 then set_cell s a (p\<lparr>food := food p + area p\<rparr>)
             else
               (let (c, ar) = calculate_curvature E (cells s) a;
                    p1 = p\<lparr>curvature := c, area := ar\<rparr>;
                    amount = to_float E (curvature p1)
                in if \<not> isnan E amount \<and> 0 < amount
                   then set_cell s a (p1\<lparr>food := food p1 + amount\<rparr>)
                   else set_cell s a p1))
        | TENTACLE \<Rightarrow>
            (if special p then
               (let p1 = p\<lparr>food := food p + area p\<rparr>
                in if frame_num s mod 1500 = 1499 then set_cell s a (p1\<lparr>special_baby := True\<rparr>)
                   else set_cell s a p1)
             else if generation p < 2 then set_cell s a (p\<lparr>food := food p + area p\<rparr>)
             else s)))"

definition add_food ::
  "('r::{zero,plus,minus,times,inverse,ord}) Env \<Rightarrow> 'r Simulation \<Rightarrow> 'r Simulation" where
  "add_food E s = fold (add_food_cell E) [0..<cells_size s] s"

subsection \<open>Growth: splitting\<close>

text \<open>
  One iteration of the loop of \<^verbatim>\<open>Simulation::split\<close>, for the index \<open>i\<close> and the local
  \<^verbatim>\<open>new_pop\<close>. It returns what the iteration did, the new value of \<^verbatim>\<open>new_pop\<close> and the
  new state:
  \<^item> \<open>Skipped\<close>: the cell is frozen or environs (\<^verbatim>\<open>continue\<close>);
  \<^item> \<open>Passed\<close>: neither food nor degree is above its bound;
  \<^item> \<open>Stopped\<close>: the population is \<^verbatim>\<open>MAX_POP\<close> (\<^verbatim>\<open>return\<close>);
  \<^item> \<open>Froze\<close>: the ring is not a good loop, the cell is frozen (\<^verbatim>\<open>continue\<close>);
  \<^item> \<open>Spawned\<close>: a new Particle was pushed and \<^verbatim>\<open>Particle::split\<close> called.
\<close>

datatype Outcome = Skipped | Passed | Stopped | Froze | Spawned

definition split_step ::
  "('r::ord) Env \<Rightarrow> nat \<Rightarrow> nat \<Rightarrow> 'r Simulation \<Rightarrow> Outcome \<times> nat \<times> 'r Simulation" where
  "split_step E i new_pop s =
     (if frozen (cells s i) \<or> environs (cells s i) then (Skipped, new_pop, s)
      else if threshold (param s) < food (cells s i)
              \<or> max_degree (param s) < get_num_links (cells s i) then
        (if new_pop = MAX_POP E then (Stopped, new_pop, s)
         else if \<not> good_loop E (cells s) i
         then (Froze, new_pop, set_cell s i ((cells s i)\<lparr>frozen := True\<rparr>))
         else
           (let s1 = push_back s (new_Particle E (int new_pop));
                s2 = (case split_mode (param s1) of
                        ZERO \<Rightarrow> s1\<lparr>cells := Particle_split E (cells s1) i (cells_size s1 - 1) False\<rparr>
                      | LONG \<Rightarrow> s1\<lparr>cells := Particle_split E (cells s1) i (cells_size s1 - 1) True\<rparr>);
                s3 = (if \<not> good_loop E (cells s2) new_pop
                      then set_cell s2 new_pop ((cells s2 new_pop)\<lparr>frozen := True\<rparr>) else s2)
            in (Spawned, new_pop + 1, s3)))
      else (Passed, new_pop, s))"

text \<open>
  The loop \<^verbatim>\<open>for (auto i=0; i<fixed_pop; i++)\<close> over the indices it still has to visit.
  Beside the state it returns the log of the iterations it ran: the index and what the
  iteration did.
\<close>

fun split_loop ::
  "('r::ord) Env \<Rightarrow> nat list \<Rightarrow> nat \<Rightarrow> 'r Simulation \<Rightarrow> (nat \<times> Outcome) list \<times> 'r Simulation" where
  "split_loop E [] new_pop s = ([], s)"
| "split_loop E (i # todo) new_pop s =
     (case split_step E i new_pop s of
        (Stopped, new_pop', s') \<Rightarrow> ([(i, Stopped)], s')
      | (out, new_pop', s') \<Rightarrow>
          (case split_loop E todo new_pop' s' of (rest, s'') \<Rightarrow> ((i, out) # rest, s'')))"

text \<open>
  \<^verbatim>\<open>Simulation::split\<close>: \<^verbatim>\<open>new_pop\<close> and \<^verbatim>\<open>fixed_pop\<close> are both \<^verbatim>\<open>cells.size()\<close> at the
  start.
\<close>

definition split_log :: "('r::ord) Env \<Rightarrow> 'r Simulation \<Rightarrow> (nat \<times> Outcome) list" where
  "split_log E s = fst (split_loop E [0..<cells_size s] (cells_size s) s)"

definition split :: "('r::ord) Env \<Rightarrow> 'r Simulation \<Rightarrow> 'r Simulation" where
  "split E s = snd (split_loop E [0..<cells_size s] (cells_size s) s)"

text \<open>
  The loop as \<^verbatim>\<open>split\<close> starts it, with \<^verbatim>\<open>new_pop\<close> equal to the size of the vector, over
  a list of indices; and the state in which the loop of \<^verbatim>\<open>split\<close> reaches the index \<open>k\<close>,
  which is the state the loop leaves when it runs over the indices below \<open>k\<close> only.
\<close>

definition split_run ::
  "('r::ord) Env \<Rightarrow> nat list \<Rightarrow> 'r Simulation \<Rightarrow> (nat \<times> Outcome) list \<times> 'r Simulation" where
  "split_run E xs s = split_loop E xs (cells_size s) s"

definition split_before :: "('r::ord) Env \<Rightarrow> 'r Simulation \<Rightarrow> nat \<Rightarrow> 'r Simulation" where
  "split_before E s k = snd (split_run E [0..<k] s)"

subsection \<open>Collision with the k-d tree\<close>

text \<open>
  The body of the inner loop of \<^verbatim>\<open>collision_update_cell_range\<close>: the cell at \<open>p\<close> and one
  payload \<open>q\<close> the query returned. \<^verbatim>\<open>p != q\<close> compares pointers.
\<close>

definition collide ::
  "('r::{plus,minus,times,inverse}) Env \<Rightarrow> 'r \<Rightarrow> nat \<Rightarrow> nat \<Rightarrow> 'r Simulation \<Rightarrow> 'r Simulation" where
  "collide E c_sq p q s =
     (let disp = position (cells s p) - position (cells s q);
          dist = to_float E (squaredNorm E disp)
      in if p \<noteq> q \<and> \<not> connected_to (cells s p) q
         then set_cell s p ((cells s p)
                \<lparr>collision_target :=
                   collision_target (cells s p) + scale (normalized E disp) ((c_sq - dist) / c_sq),
                 collisions := collisions (cells s p) + 1\<rparr>)
         else s)"

definition collision_update_cell ::
  "('r::{plus,minus,times,inverse}) Env \<Rightarrow> ('r vec3 \<times> nat) list \<Rightarrow> nat \<Rightarrow> nat \<Rightarrow>
   'r Simulation \<Rightarrow> 'r Simulation" where
  "collision_update_cell E tree max_neighbors idx s =
     (let c_sq = collision_radius (param s) * collision_radius (param s)
      in fold (collide E c_sq idx)
           (searchCapacityLimitedBall E tree (position (cells s idx)) c_sq max_neighbors) s)"

definition collision_update_cell_range ::
  "('r::{plus,minus,times,inverse}) Env \<Rightarrow> nat \<Rightarrow> nat \<Rightarrow> ('r vec3 \<times> nat) list \<Rightarrow> nat \<Rightarrow>
   'r Simulation \<Rightarrow> 'r Simulation" where
  "collision_update_cell_range E mn mx tree max_neighbors s =
     fold (collision_update_cell E tree max_neighbors) [mn..<mx] s"

text \<open>The tree \<^verbatim>\<open>collision_tree\<close> builds: one point per cell, the payload its address.\<close>

definition build_tree :: "'r Simulation \<Rightarrow> ('r vec3 \<times> nat) list" where
  "build_tree s = map (\<lambda>a. (position (cells s a), a)) [0..<cells_size s]"

text \<open>
  The workers of \<^verbatim>\<open>collision_tree\<close>. Worker \<open>i\<close> runs \<^verbatim>\<open>collision_update_cell_range\<close> on
  its range; the model runs the workers one after the other, in the order the threads
  are created, and the main thread joins them all before it goes on. A worker writes
  \<open>collision_target\<close> and \<open>collisions\<close> of the cells of its own range, and reads \<open>position\<close>
  and \<open>links\<close>, which no worker writes.
\<close>

definition collision_scan ::
  "('r::{plus,minus,times,inverse}) Env \<Rightarrow> 'r Simulation \<Rightarrow> 'r Simulation" where
  "collision_scan E s =
     (let tree = build_tree s
      in fold (\<lambda>i t. collision_update_cell_range E
                 (i * cells_size s div num_threads s) ((i + 1) * cells_size s div num_threads s)
                 tree 10 t)
           [0..<num_threads s] s)"

text \<open>The body of the last loop of \<^verbatim>\<open>collision_tree\<close>.\<close>

definition collision_finalize_cell ::
  "('r::{times,inverse}) Env \<Rightarrow> nat \<Rightarrow> 'r Simulation \<Rightarrow> 'r Simulation" where
  "collision_finalize_cell E a s =
     (let p = cells s a in
      if collisions p \<noteq> 0 then
        (let t1 = vdiv (collision_target p) (to_float E (from_int E (collisions p)));
             t2 = scale t1 (collision_factor (param s))
         in set_cell s a (p\<lparr>collision_target := t2, delta := t2\<rparr>))
      else s)"

definition collision_finalize ::
  "('r::{times,inverse}) Env \<Rightarrow> 'r Simulation \<Rightarrow> 'r Simulation" where
  "collision_finalize E s = fold (collision_finalize_cell E) [0..<cells_size s] s"

definition collision_tree ::
  "('r::{plus,minus,times,inverse}) Env \<Rightarrow> 'r Simulation \<Rightarrow> 'r Simulation" where
  "collision_tree E s = collision_finalize E (collision_scan E s)"

subsection \<open>What the collision phase computes for one cell\<close>

text \<open>
  Three functions on one Particle, used to state what the loops above do: \<open>strike\<close> is the
  update of the inner loop for a neighbour at position \<open>Q\<close>; \<open>scanned\<close> is the Particle
  after the inner loop, for the positions \<open>pos\<close> of all cells; \<open>finalized\<close> is the body of
  the last loop.
\<close>

definition strike ::
  "('r::{plus,minus,times,inverse}) Env \<Rightarrow> 'r \<Rightarrow> 'r vec3 \<Rightarrow> 'r Particle \<Rightarrow> 'r Particle" where
  "strike E c_sq Q P =
     P\<lparr>collision_target :=
         collision_target P + scale (normalized E (position P - Q))
           ((c_sq - to_float E (squaredNorm E (position P - Q))) / c_sq),
       collisions := collisions P + 1\<rparr>"

definition scanned ::
  "('r::{plus,minus,times,inverse}) Env \<Rightarrow> ('r vec3 \<times> nat) list \<Rightarrow> 'r \<Rightarrow> nat \<Rightarrow>
   (nat \<Rightarrow> 'r vec3) \<Rightarrow> nat \<Rightarrow> 'r Particle \<Rightarrow> 'r Particle" where
  "scanned E tree c_sq m pos a P =
     fold (\<lambda>q. strike E c_sq (pos q))
       (filter (\<lambda>q. q \<noteq> a \<and> q \<notin> set (links P))
          (searchCapacityLimitedBall E tree (position P) c_sq m)) P"

definition finalized :: "('r::{times,inverse}) Env \<Rightarrow> 'r \<Rightarrow> 'r Particle \<Rightarrow> 'r Particle" where
  "finalized E cf P =
     (if collisions P \<noteq> 0
      then P\<lparr>collision_target :=
               scale (vdiv (collision_target P) (to_float E (from_int E (collisions P)))) cf,
             delta := scale (vdiv (collision_target P) (to_float E (from_int E (collisions P)))) cf\<rparr>
      else P)"

subsection \<open>Collision with the grid\<close>










subsection \<open>What the collision with the grid computes for one cell\<close>





subsection \<open>Forces and integration\<close>

text \<open>The body of the loop of \<^verbatim>\<open>parallel_cpu_forces\<close>.\<close>

definition cpu_forces_cell :: "'r Env \<Rightarrow> nat \<Rightarrow> 'r Simulation \<Rightarrow> 'r Simulation" where
  "cpu_forces_cell E idx s =
     (let p = cells s idx in
      if init_shape (param s) = ENVIRONMENT \<and> (environs p \<or> frozen p) then s
      else if \<not> frozen p then
        set_cell s idx (calculate E (cells s) idx (spring_factor (param s))
          (planar_factor (param s)) (bulge_factor (param s)) (spring_length (param s)))
      else s)"

definition parallel_cpu_forces :: "'r Env \<Rightarrow> nat \<Rightarrow> nat \<Rightarrow> 'r Simulation \<Rightarrow> 'r Simulation" where
  "parallel_cpu_forces E mn mx s = fold (cpu_forces_cell E) [mn..<mx] s"

text \<open>\<^verbatim>\<open>add_cpu_forces\<close>: the workers, run one after the other as in \<open>collision_scan\<close>.\<close>

definition add_cpu_forces :: "'r Env \<Rightarrow> 'r Simulation \<Rightarrow> 'r Simulation" where
  "add_cpu_forces E s =
     fold (\<lambda>i t. parallel_cpu_forces E
             (i * cells_size s div num_threads s) ((i + 1) * cells_size s div num_threads s) t)
       [0..<num_threads s] s"

definition update_position_cell :: "'r Env \<Rightarrow> nat \<Rightarrow> 'r Simulation \<Rightarrow> 'r Simulation" where
  "update_position_cell E a s =
     (if frozen (cells s a) then s\<lparr>frozen_num := frozen_num s + 1\<rparr>
      else set_cell s a (Particle_update E (cells s) a (dampening (param s))))"

definition update_position :: "'r Env \<Rightarrow> 'r Simulation \<Rightarrow> 'r Simulation" where
  "update_position E s =
     fold (update_position_cell E) [0..<cells_size s] (s\<lparr>frozen_num := 0\<rparr>)"

subsection \<open>One frame\<close>

definition growth ::
  "('r::{zero,plus,minus,times,inverse,ord}) Env \<Rightarrow> 'r Simulation \<Rightarrow> 'r Simulation" where
  "growth E s = split E (add_food E s)"

definition after_growth ::
  "('r::{zero,plus,minus,times,inverse,ord}) Env \<Rightarrow> 'r Simulation \<Rightarrow> 'r Simulation" where
  "after_growth E s =
     (let s2 = collision_tree E s;
          s3 = add_cpu_forces E s2;
          s4 = update_position E s3
      in s4\<lparr>frame_num := frame_num s4 + 1\<rparr>)"

definition update ::
  "('r::{zero,plus,minus,times,inverse,ord}) Env \<Rightarrow> 'r Simulation \<Rightarrow> 'r Simulation" where
  "update E s = after_growth E (if cells_size s < MAX_POP E then growth E s else s)"

subsection \<open>The mesh snapshot\<close>

text \<open>
  \<^verbatim>\<open>set_matrices\<close>. A matrix is the list of its rows; a row of \<^verbatim>\<open>V\<close> or \<^verbatim>\<open>N\<close> is a
  vector, a row of \<^verbatim>\<open>F\<close> a triple of integers. \<^verbatim>\<open>resize\<close> leaves the coefficients
  undetermined: a row is \<open>None\<close> until it is written. Writing a row outside the matrix
  (an \<open>index\<close> that is negative or not below the number of cells) is undefined in C++;
  the model returns \<open>None\<close> there.

  The first loop, over the cells still to visit.
\<close>

fun fill_rows ::
  "'r Simulation \<Rightarrow> nat list \<Rightarrow> 'r vec3 option list \<Rightarrow> 'r vec3 option list \<Rightarrow>
   ('r vec3 option list \<times> 'r vec3 option list) option" where
  "fill_rows s [] V N = Some (V, N)"
| "fill_rows s (a # todo) V N =
     (let p = cells s a in
      if 0 \<le> index p \<and> nat (index p) < length V \<and> nat (index p) < length N
      then fill_rows s todo (V[nat (index p) := Some (position p)])
             (N[nat (index p) := Some (normal p)])
      else None)"

text \<open>The row the inner loop of the third loop writes for the cell \<open>p\<close> and the slot \<open>i\<close>.\<close>

definition face_row :: "'r Simulation \<Rightarrow> 'r Particle \<Rightarrow> nat \<Rightarrow> int \<times> int \<times> int" where
  "face_row s p i =
     (let c_index = index (cells s (links p ! i));
          b_index = index (cells s (links p ! ((i + 1) mod length (links p))))
      in (index p, b_index, c_index))"

text \<open>The inner and the outer loop over the faces, with \<^verbatim>\<open>F\<close> and \<^verbatim>\<open>cur_face\<close>.\<close>

fun cell_faces ::
  "'r Simulation \<Rightarrow> 'r Particle \<Rightarrow> nat list \<Rightarrow> (int \<times> int \<times> int) option list \<Rightarrow> nat \<Rightarrow>
   ((int \<times> int \<times> int) option list \<times> nat) option" where
  "cell_faces s p [] F cur_face = Some (F, cur_face)"
| "cell_faces s p (i # todo) F cur_face =
     (if cur_face < length F
      then cell_faces s p todo (F[cur_face := Some (face_row s p i)]) (cur_face + 1)
      else None)"

fun all_faces ::
  "'r Simulation \<Rightarrow> nat list \<Rightarrow> (int \<times> int \<times> int) option list \<Rightarrow> nat \<Rightarrow>
   ((int \<times> int \<times> int) option list \<times> nat) option" where
  "all_faces s [] F cur_face = Some (F, cur_face)"
| "all_faces s (a # todo) F cur_face =
     (case cell_faces s (cells s a) [0..<length (links (cells s a))] F cur_face of
        None \<Rightarrow> None
      | Some (F', cur_face') \<Rightarrow> all_faces s todo F' cur_face')"

definition set_matrices ::
  "'r Simulation \<Rightarrow>
   ('r vec3 option list \<times> 'r vec3 option list \<times> (int \<times> int \<times> int) option list) option" where
  "set_matrices s =
     (let n = cells_size s in
      case fill_rows s [0..<n] (replicate n None) (replicate n None) of
        None \<Rightarrow> None
      | Some (V, N) \<Rightarrow>
          (let num_faces = fold (\<lambda>a k. k + length (links (cells s a))) [0..<n] 0 in
           case all_faces s [0..<n] (replicate num_faces None) 0 of
             None \<Rightarrow> None
           | Some (F, cur_face) \<Rightarrow> Some (V, N, F)))"

text \<open>The rows of one cell, in the order of its ring (used to state what the loops write).\<close>

definition cell_rows :: "'r Simulation \<Rightarrow> nat \<Rightarrow> (int \<times> int \<times> int) list" where
  "cell_rows s a = map (face_row s (cells s a)) [0..<length (links (cells s a))]"

section \<open>Example data\<close>

definition origin :: "real vec3" where
  "origin = Vec3 0 0 0"

definition blank :: "real Particle" where
  "blank = \<lparr>index = 0, position = origin, normal = origin, delta = origin, links = [],
            food = 0, age = 0, generation = 0, inherited = 0, area = 0, curvature = 0,
            collisions = 0, collision_target = origin, frozen = False, environs = False,
            special = False, special_baby = False\<rparr>"

definition two_vertices :: "real PlyLoader" where
  "two_vertices = \<lparr>cells_size = 2, cells = (\<lambda>a. blank\<lparr>index := int a\<rparr>), m_filename = ''mesh.ply''\<rparr>"

text \<open>
  Modelled from the spec: \<^verbatim>\<open>Particle::good_loop\<close> is not among the sources. Section 3
  (3a) of the spec: a ring is good iff every consecutive pair \<open>(links[i], links[(i+1) mod k])\<close>
  is itself directly linked. \<open>ring_good\<close> is the value the examples give to the field
  \<open>good_loop\<close>; the theorems hold for every value of it.
\<close>

definition ring_good :: "(nat \<Rightarrow> 'r Particle) \<Rightarrow> nat \<Rightarrow> bool" where
  "ring_good cs a =
     (let ring = links (cs a); k = length ring
      in list_all (\<lambda>i. connected_to (cs (ring ! i)) (ring ! ((i + 1) mod k))) [0..<k])"

text \<open>
  The environment of the examples, over the reals: exact arithmetic, \<^verbatim>\<open>normalize()\<close> that
  leaves the zero vector, a ball query by exhaustive search, a split that halves the food
  and links child and parent, an integration step as section 4.1 of the spec describes
  it, no force, and a curvature that is not recomputed.
\<close>

definition exact_squaredNorm :: "real vec3 \<Rightarrow> real" where
  "exact_squaredNorm v = vx v * vx v + vy v * vy v + vz v * vz v"

definition exact_normalized :: "real vec3 \<Rightarrow> real vec3" where
  "exact_normalized v = (if 0 < exact_squaredNorm v then vdiv v (sqrt (exact_squaredNorm v)) else v)"

definition brute_ball :: "(real vec3 \<times> nat) list \<Rightarrow> real vec3 \<Rightarrow> real \<Rightarrow> nat \<Rightarrow> nat list" where
  "brute_ball pts center r2 k =
     take k (map snd (filter (\<lambda>pt. exact_squaredNorm (fst pt - center) < r2) pts))"

definition halving_split ::
  "(nat \<Rightarrow> real Particle) \<Rightarrow> nat \<Rightarrow> nat \<Rightarrow> bool \<Rightarrow> nat \<Rightarrow> real Particle" where
  "halving_split cs parent child long =
     cs(parent := (cs parent)\<lparr>food := food (cs parent) / 2, links := links (cs parent) @ [child]\<rparr>,
        child := (cs child)\<lparr>position := position (cs parent), normal := normal (cs parent),
                   inherited := inherited (cs parent), food := food (cs parent) / 2,
                   links := [parent]\<rparr>)"

definition plain_update :: "(nat \<Rightarrow> real Particle) \<Rightarrow> nat \<Rightarrow> real \<Rightarrow> real Particle" where
  "plain_update cs a d =
     (cs a)\<lparr>position := position (cs a) + scale (delta (cs a)) d, delta := origin,
            collisions := 0, collision_target := origin\<rparr>"

definition E0 :: "real Env" where
  "E0 = \<lparr>MAX_POP = 4, RAND_MAX = 2147483647,
          rand = (\<lambda>g. (int ((1103515245 * g + 12345) mod 2147483648),
                        (1103515245 * g + 12345) mod 2147483648)),
          squaredNorm = exact_squaredNorm,
          vec_norm = (\<lambda>v. sqrt (exact_squaredNorm v)),
          normalized = exact_normalized,
          pow = (\<lambda>x y. x powr y), isnan = (\<lambda>x. False), to_float = (\<lambda>x. x),
          from_int = of_int, lit = of_rat,
          Particle_init = blank, good_loop = ring_good, Particle_split = halving_split,
          calculate = (\<lambda>cs a sf pf bf sl. cs a), Particle_update = plain_update,
          calculate_curvature = (\<lambda>cs a. (curvature (cs a), area (cs a))),
          searchCapacityLimitedBall = brute_ball,
          get_neighbors = (\<lambda>mx mn r pts p. map (\<lambda>pt. nat (snd pt)) pts)\<rparr>"

definition P0 :: "real Parameters" where
  "P0 = \<lparr>init_shape = SPHERE, food_mode = AREA, split_mode = ZERO, threshold = 1,
          max_degree = 10, spring_factor = 0, planar_factor = 0, bulge_factor = 0,
          spring_length = 1, collision_radius = 3, collision_factor = 1,
          collision_age_threshold = 3, dampening = 1, curvature_factor = 2\<rparr>"

definition sim_of :: "nat \<Rightarrow> (nat \<Rightarrow> real Particle) \<Rightarrow> real Parameters \<Rightarrow> nat \<Rightarrow> real Simulation" where
  "sim_of n cs P f = \<lparr>cells_size = n, cells = cs, param = P, frame_num = f, frozen_num = 0,
                       num_threads = 2, rand_state = 1\<rparr>"

definition shift_example :: "real Simulation" where
  "shift_example =
     sim_of 1 (\<lambda>a. blank\<lparr>index := int a, curvature := 4, area := 1\<rparr>)
       (P0\<lparr>food_mode := SHIFT\<rparr>) 250"

definition bad_ring_example :: "real Simulation" where
  "bad_ring_example =
     sim_of 3 ((\<lambda>a. blank\<lparr>index := int a, links := [0]\<rparr>)
                 (0 := blank\<lparr>index := 0, links := [1, 2], food := 2\<rparr>)) P0 0"

definition pair_example :: "real Simulation" where
  "pair_example =
     sim_of 2 ((\<lambda>a. blank\<lparr>index := int a, position := Vec3 2 0 0, area := 1, age := 5\<rparr>)
                 (0 := blank\<lparr>index := 0, food := 5, age := 5, frozen := True\<rparr>)) P0 0"

definition triangle_example :: "real Simulation" where
  "triangle_example =
     sim_of 3 ((\<lambda>a. blank\<lparr>index := int a\<rparr>)
                 (0 := blank\<lparr>index := 0, links := [1, 2], food := 2\<rparr>,
                  1 := blank\<lparr>index := 1, links := [2, 0]\<rparr>,
                  2 := blank\<lparr>index := 2, links := [0, 1]\<rparr>)) P0 0"


text \<open>
  Rounding to \<open>p\<close> significant binary digits, to the nearest such number, a tie to the one
  with the even last digit; the exponent is not bounded (no overflow, no subnormal
  numbers). \<open>round_bits 24\<close> is the conversion to \<^verbatim>\<open>float\<close> of the environment \<open>E1\<close>, which
  is \<open>E0\<close> otherwise, with room for 16 cells.
\<close>

definition round_even :: "real \<Rightarrow> int" where
  "round_even y =
     (let f = \<lfloor>y\<rfloor> in
      if y - of_int f < 1 / 2 then f
      else if 1 / 2 < y - of_int f then f + 1
      else if even f then f else f + 1)"

definition round_bits :: "nat \<Rightarrow> real \<Rightarrow> real" where
  "round_bits p x =
     (if x = 0 then 0
      else (let u = 2 powr (of_int \<lfloor>log 2 \<bar>x\<bar>\<rfloor> - of_nat p + 1)
            in of_int (round_even (x / u)) * u))"







text \<open>
  Double precision: a \<open>binary64\<close> is a real number, and every operation rounds its exact
  result to 53 significant binary digits. The environment \<open>E2\<close> computes in \<open>binary64\<close>,
  converts to \<^verbatim>\<open>float\<close> by rounding to 24 digits, answers the ball query by exhaustive
  search in the order of the points, and its grid returns the indices in the reverse
  order. The fields the collision phase does not read leave the cells as they are.
\<close>

datatype binary64 = B64 (val64: real)

instantiation binary64 :: "{zero,plus,minus,times,inverse,ord}"
begin

definition zero_binary64 :: binary64 where
  "zero_binary64 = B64 0"

definition plus_binary64 :: "binary64 \<Rightarrow> binary64 \<Rightarrow> binary64" where
  "plus_binary64 a b = B64 (round_bits 53 (val64 a + val64 b))"

definition minus_binary64 :: "binary64 \<Rightarrow> binary64 \<Rightarrow> binary64" where
  "minus_binary64 a b = B64 (round_bits 53 (val64 a - val64 b))"

definition times_binary64 :: "binary64 \<Rightarrow> binary64 \<Rightarrow> binary64" where
  "times_binary64 a b = B64 (round_bits 53 (val64 a * val64 b))"

definition divide_binary64 :: "binary64 \<Rightarrow> binary64 \<Rightarrow> binary64" where
  "divide_binary64 a b = B64 (round_bits 53 (val64 a / val64 b))"

definition inverse_binary64 :: "binary64 \<Rightarrow> binary64" where
  "inverse_binary64 a = B64 (round_bits 53 (1 / val64 a))"

definition less_eq_binary64 :: "binary64 \<Rightarrow> binary64 \<Rightarrow> bool" where
  "less_eq_binary64 a b = (val64 a \<le> val64 b)"

definition less_binary64 :: "binary64 \<Rightarrow> binary64 \<Rightarrow> bool" where
  "less_binary64 a b = (val64 a < val64 b)"

instance ..

end








section \<open>The worker count\<close>

lemma wrap_0_minus_2: "(0 :: 32 word) - 2 = 4294967294"
  by simp

lemma wrap_1_minus_2: "(1 :: 32 word) - 2 = 4294967295"
  by simp

lemma init_num_threads_from_2:
  assumes "2 \<le> h"
  shows "uint (init_num_threads h) = worker_count_spec (uint h)"
proof -
  from assms have le: "uint (2 :: 32 word) \<le> uint h"
    by (simp add: word_le_def)
  have sub: "uint (h - 2) = uint h - 2"
    using le uint_sub_lem [of 2 h] by simp
  show ?thesis
  proof (cases "1 \<le> h - 2")
    case True
    then have "1 \<le> uint (h - 2)" by (simp add: word_le_def)
    with True sub show ?thesis
      by (simp add: init_num_threads_def worker_count_spec_def max_def)
  next
    case False
    then have "\<not> 1 \<le> uint (h - 2)" by (simp add: word_le_def)
    with False sub show ?thesis
      by (simp add: init_num_threads_def worker_count_spec_def max_def)
  qed
qed

text \<open>
  C7. The spec gives the worker count as \<open>max(1, hardware_parallelism - 2)\<close> for every value
  the platform reports, 0 and 1 included, which is 1 for both. The code subtracts in
  unsigned arithmetic: a reported 0 gives 4294967294 workers and a reported 1 gives
  4294967295.
\<close>

theorem init_num_threads_wraps:
  "uint (init_num_threads 0) = 4294967294 \<and> worker_count_spec (uint (0 :: 32 word)) = 1 \<and>
   uint (init_num_threads 1) = 4294967295 \<and> worker_count_spec (uint (1 :: 32 word)) = 1"
proof -
  have "init_num_threads 0 = 4294967294"
    unfolding init_num_threads_def wrap_0_minus_2 by (simp add: max_def)
  moreover have "init_num_threads 1 = 4294967295"
    unfolding init_num_threads_def wrap_1_minus_2 by (simp add: max_def)
  ultimately show ?thesis
    by (simp add: worker_count_spec_def)
qed

section \<open>Symmetric adjacency through connect\<close>

text \<open>
  C9. For \<open>i\<close> and \<open>j\<close> inside the vector, \<open>connect L i j\<close> returns a state \<open>L'\<close> such
  that a second \<open>connect L' i j\<close> changes nothing (idempotent), \<open>connect L j i\<close> gives the
  same state (commutative), \<open>j\<close> is in the ring of \<open>i\<close> and \<open>i\<close> in the ring of \<open>j\<close>, each
  ring got the other end appended iff it was absent, and no other cell changed.
\<close>

theorem connect_idempotent_commutative:
  assumes "i < cells_size L" and "j < cells_size L"
  shows "\<exists>L'. connect L i j = Some L' \<and> connect L' i j = Some L' \<and> connect L j i = Some L' \<and>
           cells_size L' = cells_size L \<and>
           (j \<in> set (links (cells L' i))) = (i \<in> set (links (cells L' j))) \<and>
           j \<in> set (links (cells L' i)) \<and>
           links (cells L' i) =
             (if j \<in> set (links (cells L i)) then links (cells L i) else links (cells L i) @ [j]) \<and>
           (i \<noteq> j \<longrightarrow> links (cells L' j) =
             (if i \<in> set (links (cells L j)) then links (cells L j) else links (cells L j) @ [i])) \<and>
           (\<forall>k. k \<noteq> i \<and> k \<noteq> j \<longrightarrow> cells L' k = cells L k)"
  using assms
  by (auto simp: connect_def Let_def connected_to_def add_link_def fun_upd_twist)

theorem connect_witness:
  "(0::nat) < cells_size two_vertices \<and> (1::nat) < cells_size two_vertices \<and>
   (\<exists>L'. connect two_vertices 0 1 = Some L' \<and> connect L' 0 1 = Some L' \<and>
      connect two_vertices 1 0 = Some L' \<and> links (cells L' 0) = [1] \<and> links (cells L' 1) = [0])"
proof -
  have h0: "(0::nat) < cells_size two_vertices" and h1: "(1::nat) < cells_size two_vertices"
    by (simp_all add: two_vertices_def)
  from connect_idempotent_commutative [OF h0 h1] obtain L' where
    c: "connect two_vertices 0 1 = Some L'" "connect L' 0 1 = Some L'"
       "connect two_vertices 1 0 = Some L'" and
    l0: "links (cells L' 0) = (if 1 \<in> set (links (cells two_vertices 0))
          then links (cells two_vertices 0) else links (cells two_vertices 0) @ [1])" and
    l1: "(0::nat) \<noteq> 1 \<longrightarrow> links (cells L' 1) = (if 0 \<in> set (links (cells two_vertices 1))
          then links (cells two_vertices 1) else links (cells two_vertices 1) @ [0])"
    by blast
  from l0 have "links (cells L' 0) = [1]"
    by (simp add: two_vertices_def blank_def)
  moreover from l1 have "links (cells L' 1) = [0]"
    by (simp add: two_vertices_def blank_def)
  ultimately show ?thesis
    using h0 h1 c by blast
qed

section \<open>Growth: what add-food does to each cell\<close>

lemma add_food_cell_frame:
  "cells_size (add_food_cell E a s) = cells_size s"
  "param (add_food_cell E a s) = param s"
  "frame_num (add_food_cell E a s) = frame_num s"
  "num_threads (add_food_cell E a s) = num_threads s"
  by (simp_all add: add_food_cell_def set_cell_def Let_def split: Food.splits prod.splits)

lemma add_food_cell_other:
  "b \<noteq> a \<Longrightarrow> cells (add_food_cell E a s) b = cells s b"
  by (simp add: add_food_cell_def set_cell_def Let_def split: Food.splits prod.splits)

lemma add_food_cell_flags:
  "frozen (cells (add_food_cell E a s) b) = frozen (cells s b)"
  "environs (cells (add_food_cell E a s) b) = environs (cells s b)"
  by (simp_all add: add_food_cell_def set_cell_def Let_def split: Food.splits prod.splits)

lemma add_food_cell_inert:
  "frozen (cells s a) \<or> environs (cells s a) \<Longrightarrow>
   cells (add_food_cell E a s) a = (cells s a)\<lparr>food := 0\<rparr>"
  by (auto simp add: add_food_cell_def set_cell_def Let_def)

lemma fold_add_food_frame:
  "cells_size (fold (add_food_cell E) xs s) = cells_size s \<and>
   param (fold (add_food_cell E) xs s) = param s \<and>
   frame_num (fold (add_food_cell E) xs s) = frame_num s \<and>
   num_threads (fold (add_food_cell E) xs s) = num_threads s"
  by (induction xs arbitrary: s) (simp_all add: add_food_cell_frame)

lemma fold_add_food_other:
  "b \<notin> set xs \<Longrightarrow> cells (fold (add_food_cell E) xs s) b = cells s b"
  by (induction xs arbitrary: s) (simp_all add: add_food_cell_other)

lemma fold_add_food_flags:
  "frozen (cells (fold (add_food_cell E) xs s) b) = frozen (cells s b) \<and>
   environs (cells (fold (add_food_cell E) xs s) b) = environs (cells s b)"
  by (induction xs arbitrary: s) (simp_all add: add_food_cell_flags)

lemma upt_split_at: "a < n \<Longrightarrow> [0..<n] = [0..<a] @ a # [Suc a..<n]"
  by (metis less_imp_le_nat upt_add_eq_append upt_conv_Cons le0 le_add_diff_inverse)

lemma add_food_at:
  assumes "a < cells_size s"
  shows "cells (add_food E s) a =
         cells (add_food_cell E a (fold (add_food_cell E) [0..<a] s)) a"
proof -
  have "add_food E s =
        fold (add_food_cell E) [Suc a..<cells_size s]
          (add_food_cell E a (fold (add_food_cell E) [0..<a] s))"
    unfolding add_food_def using upt_split_at [OF assms] by simp
  then show ?thesis
    by (simp add: fold_add_food_other)
qed

lemma add_food_before:
  "cells (fold (add_food_cell E) [0..<a] s) a = cells s a"
  by (simp add: fold_add_food_other)


text \<open>
  C10 (as amended). On every call \<open>add_food\<close> leaves the flags \<open>frozen\<close> and \<open>environs\<close> of
  every cell as they are, assigns \<open>food = 0\<close> to every cell that is frozen or environs and
  changes nothing else of it (so it applies no increment to it); consequently, when
  \<open>add_food\<close> returns, every frozen or environs cell has \<open>food\<close> equal to 0.
\<close>

theorem add_food_zeroes_inert:
  "\<forall>a<cells_size s.
     frozen (cells (add_food E s) a) = frozen (cells s a) \<and>
     environs (cells (add_food E s) a) = environs (cells s a) \<and>
     (frozen (cells s a) \<or> environs (cells s a) \<longrightarrow>
        cells (add_food E s) a = (cells s a)\<lparr>food := 0\<rparr>) \<and>
     (frozen (cells (add_food E s) a) \<or> environs (cells (add_food E s) a) \<longrightarrow>
        food (cells (add_food E s) a) = 0)"
proof (intro allI impI)
  fix a assume a: "a < cells_size s"
  let ?t = "fold (add_food_cell E) [0..<a] s"
  have flags: "frozen (cells (add_food E s) a) = frozen (cells s a)"
              "environs (cells (add_food E s) a) = environs (cells s a)"
    by (simp_all add: add_food_def fold_add_food_flags)
  have inert: "cells (add_food E s) a = (cells s a)\<lparr>food := 0\<rparr>"
    if "frozen (cells s a) \<or> environs (cells s a)"
  proof -
    from that have "frozen (cells ?t a) \<or> environs (cells ?t a)"
      by (simp add: add_food_before)
    then have "cells (add_food_cell E a ?t) a = (cells ?t a)\<lparr>food := 0\<rparr>"
      by (rule add_food_cell_inert)
    then show ?thesis
      by (simp add: add_food_at [OF a] add_food_before)
  qed
  show "frozen (cells (add_food E s) a) = frozen (cells s a) \<and>
     environs (cells (add_food E s) a) = environs (cells s a) \<and>
     (frozen (cells s a) \<or> environs (cells s a) \<longrightarrow>
        cells (add_food E s) a = (cells s a)\<lparr>food := 0\<rparr>) \<and>
     (frozen (cells (add_food E s) a) \<or> environs (cells (add_food E s) a) \<longrightarrow>
        food (cells (add_food E s) a) = 0)"
    using flags inert by auto
qed

theorem add_food_zeroes_inert_witness:
  "(0::nat) < cells_size pair_example \<and> frozen (cells pair_example 0) \<and>
   food (cells pair_example 0) = 5 \<and>
   cells (add_food E0 pair_example) 0 = (cells pair_example 0)\<lparr>food := 0\<rparr> \<and>
   food (cells (add_food E0 pair_example) 0) = 0"
proof -
  have h: "(0::nat) < cells_size pair_example" "frozen (cells pair_example 0)"
      "food (cells pair_example 0) = 5"
    by (simp_all add: pair_example_def sim_of_def blank_def)
  from add_food_zeroes_inert [of pair_example E0] h(1)
  have "(frozen (cells pair_example 0) \<or> environs (cells pair_example 0) \<longrightarrow>
          cells (add_food E0 pair_example) 0 = (cells pair_example 0)\<lparr>food := 0\<rparr>)"
    by blast
  with h show ?thesis by simp
qed

text \<open>
  The claim C10 goes on: after any growth phase every frozen or environs cell has food 0.
  The growth phase of \<open>update\<close> is \<open>add_food\<close> followed by \<open>split\<close>, and \<open>split\<close> freezes a
  cell whose ring is not a good loop without touching its food. In \<open>bad_ring_example\<close>
  cell 0 has food 2 above the threshold 1 and the ring \<open>[1, 2]\<close>, where 1 and 2 are not
  linked: after the growth phase it is frozen and its food is still 2.
\<close>

theorem growth_keeps_food_of_cell_it_freezes:
  "frozen (cells (growth E0 bad_ring_example) 0) \<and> food (cells (growth E0 bad_ring_example) 0) = 2 \<and>
   \<not> frozen (cells bad_ring_example 0)"
  by (simp add: growth_def add_food_def add_food_cell_def split_def bad_ring_example_def sim_of_def upt_rec split_step_def P0_def blank_def
      set_cell_def E0_def ring_good_def connected_to_def get_num_links_def)


section \<open>Growth: the SHIFT policy\<close>

lemma add_food_cell_SHIFT:
  assumes "food_mode (param t) = SHIFT" and "\<not> frozen (cells t a)" and "\<not> environs (cells t a)"
  shows "cells (add_food_cell E a t) a =
     (let p = cells t a;
          c = fst (calculate_curvature E (cells t) a);
          ar = snd (calculate_curvature E (cells t) a);
          amount = to_float E c
      in if frame_num t < 250 then p\<lparr>food := food p + area p\<rparr>
         else if \<not> isnan E amount \<and> 0 < amount
              then p\<lparr>curvature := c, area := ar, food := food p + amount\<rparr>
              else p\<lparr>curvature := c, area := ar\<rparr>)"
  using assms
  by (simp add: add_food_cell_def set_cell_def Let_def split: prod.splits)

text \<open>
  C6 (as amended). Under the SHIFT policy \<open>add_food\<close> gives every cell \<open>a\<close> that is neither
  frozen nor environs: on a frame with \<open>frame_num < 250\<close>, its \<open>area\<close> added to its food; on
  a later frame, after \<open>calculate_curvature\<close>, its curvature converted to \<^verbatim>\<open>float\<close> added to
  its food when that value is not NaN and is positive, and no food otherwise. No power
  with \<open>curvature_factor\<close> is taken. (\<open>t\<close> is the state when the loop reaches the cell.)
\<close>

theorem add_food_SHIFT:
  assumes "food_mode (param s) = SHIFT" and "a < cells_size s"
    and "\<not> frozen (cells s a)" and "\<not> environs (cells s a)"
  shows "cells (add_food E s) a =
     (let t = fold (add_food_cell E) [0..<a] s;
          p = cells s a;
          c = fst (calculate_curvature E (cells t) a);
          ar = snd (calculate_curvature E (cells t) a);
          amount = to_float E c
      in if frame_num s < 250 then p\<lparr>food := food p + area p\<rparr>
         else if \<not> isnan E amount \<and> 0 < amount
              then p\<lparr>curvature := c, area := ar, food := food p + amount\<rparr>
              else p\<lparr>curvature := c, area := ar\<rparr>)"
proof -
  let ?t = "fold (add_food_cell E) [0..<a] s"
  have same: "cells ?t a = cells s a"
    by (rule add_food_before)
  have "food_mode (param ?t) = SHIFT" and "frame_num ?t = frame_num s"
    using assms(1) by (simp_all add: fold_add_food_frame)
  moreover have "\<not> frozen (cells ?t a)" and "\<not> environs (cells ?t a)"
    using assms(3,4) by (simp_all add: same)
  ultimately show ?thesis
    using add_food_cell_SHIFT [of ?t a E] by (simp add: add_food_at [OF assms(2)] same Let_def)
qed

theorem add_food_SHIFT_witness:
  "food_mode (param shift_example) = SHIFT \<and> (0::nat) < cells_size shift_example \<and>
   \<not> frozen (cells shift_example 0) \<and> \<not> environs (cells shift_example 0) \<and>
   \<not> frame_num shift_example < 250 \<and>
   cells (add_food E0 shift_example) 0 = (cells shift_example 0)\<lparr>curvature := 4, area := 1, food := 4\<rparr>"
proof -
  have h: "food_mode (param shift_example) = SHIFT" "(0::nat) < cells_size shift_example"
      "\<not> frozen (cells shift_example 0)" "\<not> environs (cells shift_example 0)"
    by (simp_all add: shift_example_def sim_of_def P0_def blank_def)
  have "cells (add_food E0 shift_example) 0 = (cells shift_example 0)\<lparr>curvature := 4, area := 1, food := 4\<rparr>"
    using add_food_SHIFT [OF h, of E0]
    by (simp add: shift_example_def sim_of_def P0_def blank_def E0_def)
  with h show ?thesis
    by (simp add: shift_example_def sim_of_def)
qed

text \<open>
  The claim C6 says that on later frames SHIFT adds the CURVATURE increment,
  \<open>curvature^curvature_factor\<close>. At frame 250, with curvature 4 and \<open>curvature_factor\<close> 2,
  SHIFT adds 4 to the food, where \<open>curvature^curvature_factor\<close> is 16 and the CURVATURE
  policy adds 16 in the same state.
\<close>

theorem add_food_SHIFT_not_CURVATURE:
  "food_mode (param shift_example) = SHIFT \<and> frame_num shift_example = 250 \<and>
   curvature (cells shift_example 0) = 4 \<and> curvature_factor (param shift_example) = 2 \<and>
   food (cells shift_example 0) = 0 \<and>
   food (cells (add_food E0 shift_example) 0) = 4 \<and>
   pow E0 (curvature (cells shift_example 0)) (curvature_factor (param shift_example)) = 16 \<and>
   food (cells (add_food E0 (shift_example\<lparr>param := (param shift_example)\<lparr>food_mode := CURVATURE\<rparr>\<rparr>)) 0) = 16"
  by (simp add: add_food_def add_food_cell_def shift_example_def sim_of_def P0_def blank_def E0_def
      set_cell_def)


section \<open>Growth: the split phase\<close>

lemma split_step_cases:
  "split_step E i np s = (out, np', s') \<Longrightarrow>
   param s' = param s \<and> frame_num s' = frame_num s \<and> num_threads s' = num_threads s \<and>
   rand_state s' = rand_state s \<and>
   (out = Spawned \<longrightarrow> np' = np + 1 \<and> cells_size s' = cells_size s + 1 \<and> np \<noteq> MAX_POP E) \<and>
   (out \<noteq> Spawned \<longrightarrow> np' = np \<and> cells_size s' = cells_size s) \<and>
   (out = Stopped \<longrightarrow> s' = s \<and> np = MAX_POP E) \<and>
   (out = Skipped \<longrightarrow> s' = s) \<and> (out = Passed \<longrightarrow> s' = s)"
  by (auto simp: split_step_def set_cell_def push_back_def Let_def split: if_splits Split.splits)

lemma split_step_outcome:
  "fst (split_step E i np s) =
     (if frozen (cells s i) \<or> environs (cells s i) then Skipped
      else if threshold (param s) < food (cells s i) \<or> max_degree (param s) < int (length (links (cells s i)))
      then (if np = MAX_POP E then Stopped
            else if good_loop E (cells s) i then Spawned else Froze)
      else Passed)"
  by (simp add: split_step_def Let_def get_num_links_def)

lemma split_step_new_index:
  assumes "split_step E i (cells_size s) s = (Spawned, np', s')"
    and "\<And>cs p ch l a. index (Particle_split E cs p ch l a) = index (cs a)"
  shows "index (cells s' (cells_size s)) = int (cells_size s)"
  using assms
  by (auto simp: split_step_def set_cell_def push_back_def Let_def new_Particle_def
      split: if_splits Split.splits)

lemma run_Nil: "split_run E [] s = ([], s)" by (simp add: split_run_def)

lemma run_Cons:
  "split_run E (i # xs) s =
     (let out = fst (split_step E i (cells_size s) s); s' = snd (snd (split_step E i (cells_size s) s))
      in if out = Stopped then ([(i, Stopped)], s')
         else ((i, out) # fst (split_run E xs s'), snd (split_run E xs s')))"
proof -
  obtain out np' s' where st: "split_step E i (cells_size s) s = (out, np', s')"
    by (cases "split_step E i (cells_size s) s") auto
  from split_step_cases [OF st] have np: "np' = cells_size s'"
    by (cases "out = Spawned") auto
  show ?thesis
    by (cases out) (simp_all add: split_run_def st np split: prod.splits)
qed

lemma run_log_length: "length (fst (split_run E xs s)) \<le> length xs"
  by (induction xs arbitrary: s) (simp_all add: run_Nil run_Cons Let_def)

lemma run_log_prefix: "map fst (fst (split_run E xs s)) = take (length (fst (split_run E xs s))) xs"
  by (induction xs arbitrary: s) (simp_all add: run_Nil run_Cons Let_def)

lemma run_stopped_last:
  "k < length (fst (split_run E xs s)) \<Longrightarrow> snd (fst (split_run E xs s) ! k) = Stopped \<Longrightarrow>
   Suc k = length (fst (split_run E xs s))"
proof (induction xs arbitrary: s k)
  case Nil
  then show ?case by (simp add: run_Nil)
next
  case (Cons i xs)
  then show ?case
    by (cases k) (auto simp: run_Cons Let_def split: if_splits)
qed

lemma run_short_stopped:
  "length (fst (split_run E xs s)) < length xs \<Longrightarrow>
   fst (split_run E xs s) \<noteq> [] \<and> snd (last (fst (split_run E xs s))) = Stopped"
  by (induction xs arbitrary: s) (auto simp: run_Nil run_Cons Let_def split: if_splits)

lemma step_snd_size:
  "cells_size (snd (snd (split_step E i np s))) =
   cells_size s + (if fst (split_step E i np s) = Spawned then 1 else 0)"
  using split_step_cases [of E i np s "fst (split_step E i np s)" "fst (snd (split_step E i np s))"
      "snd (snd (split_step E i np s))"]
  by auto

lemma step_snd_param:
  "param (snd (snd (split_step E i np s))) = param s"
  "frame_num (snd (snd (split_step E i np s))) = frame_num s"
  "num_threads (snd (snd (split_step E i np s))) = num_threads s"
  using split_step_cases [of E i np s "fst (split_step E i np s)" "fst (snd (split_step E i np s))"
      "snd (snd (split_step E i np s))"]
  by auto

lemma run_size:
  "cells_size (snd (split_run E xs s)) =
   cells_size s + length (filter (\<lambda>e. snd e = Spawned) (fst (split_run E xs s)))"
  by (induction xs arbitrary: s) (simp_all add: run_Nil run_Cons Let_def step_snd_size)

lemma run_param:
  "param (snd (split_run E xs s)) = param s \<and> frame_num (snd (split_run E xs s)) = frame_num s \<and>
   num_threads (snd (split_run E xs s)) = num_threads s"
  by (induction xs arbitrary: s) (simp_all add: run_Nil run_Cons Let_def step_snd_param)

lemma run_stopped_size:
  "fst (split_run E xs s) \<noteq> [] \<Longrightarrow> snd (last (fst (split_run E xs s))) = Stopped \<Longrightarrow>
   cells_size (snd (split_run E xs s)) = MAX_POP E"
proof (induction xs arbitrary: s)
  case Nil
  then show ?case by (simp add: run_Nil)
next
  case (Cons i xs)
  obtain out np' s' where st: "split_step E i (cells_size s) s = (out, np', s')"
    by (cases "split_step E i (cells_size s) s") auto
  show ?case
  proof (cases "out = Stopped")
    case True
    with split_step_cases [OF st] st show ?thesis
      by (simp add: run_Cons Let_def)
  next
    case False
    with Cons.prems st have ne: "fst (split_run E xs s') \<noteq> []"
      by (auto simp: run_Cons Let_def split: if_splits)
    with Cons.prems st False have "snd (last (fst (split_run E xs s'))) = Stopped"
      by (simp add: run_Cons Let_def)
    with Cons.IH [OF ne] st False show ?thesis
      by (simp add: run_Cons Let_def)
  qed
qed

lemma run_bounded:
  "cells_size s \<le> MAX_POP E \<Longrightarrow> cells_size (snd (split_run E xs s)) \<le> MAX_POP E"
proof (induction xs arbitrary: s)
  case Nil
  then show ?case by (simp add: run_Nil)
next
  case (Cons i xs)
  obtain out np' s' where st: "split_step E i (cells_size s) s = (out, np', s')"
    by (cases "split_step E i (cells_size s) s") auto
  from split_step_cases [OF st] Cons.prems have "cells_size s' \<le> MAX_POP E"
    by (cases "out = Spawned") auto
  from Cons.IH [OF this] st Cons.prems split_step_cases [OF st] show ?case
    by (simp add: run_Cons Let_def)
qed

lemma run_take:
  "k \<le> length (fst (split_run E xs s)) \<Longrightarrow> fst (split_run E (take k xs) s) = take k (fst (split_run E xs s))"
proof (induction xs arbitrary: s k)
  case Nil
  then show ?case by (simp add: run_Nil)
next
  case (Cons i xs)
  show ?case
  proof (cases k)
    case 0
    then show ?thesis by (simp add: run_Nil)
  next
    case (Suc j)
    with Cons.prems Cons.IH [of j] show ?thesis
      by (auto simp: run_Cons Let_def split: if_splits)
  qed
qed

lemma run_full:
  "snd (split_run E (take (length (fst (split_run E xs s))) xs) s) = snd (split_run E xs s)"
  by (induction xs arbitrary: s) (simp_all add: run_Nil run_Cons Let_def)

lemma run_nth:
  assumes "k < length (fst (split_run E xs s))"
  shows "fst (split_run E xs s) ! k =
           (xs ! k, fst (split_step E (xs ! k) (cells_size (snd (split_run E (take k xs) s)))
                          (snd (split_run E (take k xs) s)))) \<and>
         snd (split_run E (take (Suc k) xs) s) =
           snd (snd (split_step E (xs ! k) (cells_size (snd (split_run E (take k xs) s)))
                          (snd (split_run E (take k xs) s))))"
  using assms
proof (induction xs arbitrary: s k)
  case Nil
  then show ?case by (simp add: run_Nil)
next
  case (Cons i xs)
  show ?case
  proof (cases k)
    case 0
    then show ?thesis by (simp add: run_Nil run_Cons Let_def)
  next
    case (Suc j)
    with Cons.prems Cons.IH [of j] show ?thesis
      by (auto simp: run_Cons Let_def split: if_splits)
  qed
qed
lemma run_at_cap: "cells_size s = MAX_POP E \<Longrightarrow> snd (split_run E xs s) = s"
proof (induction xs)
  case Nil
  show ?case by (simp add: run_Nil)
next
  case (Cons i xs)
  let ?st = "split_step E i (cells_size s) s"
  have st: "?st = (fst ?st, fst (snd ?st), snd (snd ?st))" by simp
  from split_step_cases [OF st] Cons.prems have "fst ?st \<noteq> Spawned" by auto
  moreover have "fst ?st \<noteq> Froze"
    using Cons.prems by (simp add: split_step_outcome)
  ultimately have "snd (snd ?st) = s"
    using split_step_cases [OF st] by (cases "fst ?st") auto
  with Cons show ?case
    by (simp add: run_Cons Let_def)
qed

lemma run_drop:
  "k < length (fst (split_run E xs s)) \<Longrightarrow>
   snd (split_run E xs s) = snd (split_run E (drop k xs) (snd (split_run E (take k xs) s)))"
proof (induction xs arbitrary: s k)
  case Nil
  then show ?case by (simp add: run_Nil)
next
  case (Cons i xs)
  show ?case
  proof (cases k)
    case 0
    then show ?thesis by (simp add: run_Nil)
  next
    case (Suc j)
    with Cons.prems Cons.IH [of j] show ?thesis
      by (auto simp: run_Cons Let_def split: if_splits)
  qed
qed

lemma split_log_eq_run: "split_log E s = fst (split_run E [0..<cells_size s] s)"
  by (simp add: split_log_def split_run_def)

lemma split_eq_run: "split E s = snd (split_run E [0..<cells_size s] s)"
  by (simp add: split_def split_run_def)

lemma split_log_length: "length (split_log E s) \<le> cells_size s"
  using run_log_length [of E "[0..<cells_size s]" s] by (simp add: split_log_eq_run)

lemma split_log_visits: "map fst (split_log E s) = [0..<length (split_log E s)]"
  using run_log_prefix [of E "[0..<cells_size s]" s] split_log_length [of E s]
  by (simp add: split_log_eq_run)

lemma split_log_short:
  "length (split_log E s) < cells_size s \<Longrightarrow>
   split_log E s \<noteq> [] \<and> snd (last (split_log E s)) = Stopped"
  using run_short_stopped [of E "[0..<cells_size s]" s] by (simp add: split_log_eq_run)

lemma split_final: "split E s = split_before E s (length (split_log E s))"
  using run_full [of E "[0..<cells_size s]" s] split_log_length [of E s]
  by (simp add: split_log_eq_run split_eq_run split_before_def)

lemma split_size:
  "cells_size (split E s) =
   cells_size s + length (filter (\<lambda>e. snd e = Spawned) (split_log E s))"
  using run_size [of E "[0..<cells_size s]" s] by (simp add: split_log_eq_run split_eq_run)

lemma split_log_nth:
  assumes "k < length (split_log E s)"
  shows "split_log E s ! k =
           (k, fst (split_step E k (cells_size (split_before E s k)) (split_before E s k)))"
    and "split_before E s (Suc k) =
           snd (snd (split_step E k (cells_size (split_before E s k)) (split_before E s k)))"
proof -
  from assms split_log_length [of E s] have kn: "k < cells_size s" by simp
  then have tk: "take k [0..<cells_size s] = [0..<k]"
    and tsk: "take (Suc k) [0..<cells_size s] = [0..<Suc k]"
    and nk: "[0..<cells_size s] ! k = k"
    by simp_all
  from assms have "k < length (fst (split_run E [0..<cells_size s] s))"
    by (simp add: split_log_eq_run)
  from run_nth [OF this] show
    "split_log E s ! k =
           (k, fst (split_step E k (cells_size (split_before E s k)) (split_before E s k)))"
    and "split_before E s (Suc k) =
           snd (snd (split_step E k (cells_size (split_before E s k)) (split_before E s k)))"
    unfolding tk tsk nk split_log_eq_run split_before_def by blast+
qed


lemma split_at_cap:
  assumes "k < length (split_log E s)" and "cells_size (split_before E s k) = MAX_POP E"
  shows "split E s = split_before E s k"
proof -
  from assms(1) have "k < length (fst (split_run E [0..<cells_size s] s))"
    by (simp add: split_log_eq_run)
  from run_drop [OF this] assms(1) split_log_length [of E s]
  have "split E s = snd (split_run E (drop k [0..<cells_size s]) (split_before E s k))"
    by (simp add: split_eq_run split_before_def)
  with run_at_cap [OF assms(2)] show ?thesis by simp
qed


lemma split_before_frame:
  "param (split_before E s k) = param s" "cells_size s \<le> cells_size (split_before E s k)"
  by (simp_all add: split_before_def run_param run_size)

lemma split_visit:
  fixes E :: "('r::ord) Env"
  assumes k: "k < length (split_log E s)"
  defines "t \<equiv> split_before E s k"
  defines "t' \<equiv> split_before E s (Suc k)"
  defines "out \<equiv> snd (split_log E s ! k)"
  defines "trigger \<equiv> threshold (param t) < food (cells t k)
                       \<or> max_degree (param t) < int (length (links (cells t k)))"
  shows "split_step E k (cells_size t) t = (out, cells_size t', t')"
    and "(out = Skipped) = (frozen (cells t k) \<or> environs (cells t k))"
    and "(out = Stopped) =
           (\<not> frozen (cells t k) \<and> \<not> environs (cells t k) \<and> trigger \<and> cells_size t = MAX_POP E)"
    and "\<not> frozen (cells t k) \<and> \<not> environs (cells t k) \<and> out \<noteq> Stopped \<longrightarrow>
           (out = Spawned) = (trigger \<and> good_loop E (cells t) k)"
    and "out = Stopped \<longrightarrow> Suc k = length (split_log E s) \<and> split E s = t"
    and "out = Spawned \<longrightarrow> cells_size t' = cells_size t + 1 \<and>
            ((\<forall>cs p ch l a. index (Particle_split E cs p ch l a) = index (cs a)) \<longrightarrow>
               index (cells t' (cells_size t)) = int (cells_size t))"
    and "out \<noteq> Spawned \<longrightarrow> cells_size t' = cells_size t"
    and "out = Skipped \<or> out = Passed \<or> out = Stopped \<longrightarrow> t' = t"
    and "cells_size t = MAX_POP E \<longrightarrow> split E s = t"
proof -
  let ?st = "split_step E k (cells_size t) t"
  have out: "out = fst ?st" and nxt: "t' = snd (snd ?st)"
    using split_log_nth [OF k] by (simp_all add: out_def t_def t'_def)
  have st: "?st = (out, fst (snd ?st), t')"
    by (simp add: out nxt)
  note cases = split_step_cases [OF st]
  have outcome: "out =
       (if frozen (cells t k) \<or> environs (cells t k) then Skipped
        else if trigger
        then (if cells_size t = MAX_POP E then Stopped
              else if good_loop E (cells t) k then Spawned else Froze)
        else Passed)"
    unfolding out trigger_def by (rule split_step_outcome)
  show "split_step E k (cells_size t) t = (out, cells_size t', t')"
    using st cases by (cases "out = Spawned") simp_all
  show "(out = Skipped) = (frozen (cells t k) \<or> environs (cells t k))"
    by (subst outcome) simp
  show "(out = Stopped) =
           (\<not> frozen (cells t k) \<and> \<not> environs (cells t k) \<and> trigger \<and> cells_size t = MAX_POP E)"
    by (subst outcome) simp
  show "\<not> frozen (cells t k) \<and> \<not> environs (cells t k) \<and> out \<noteq> Stopped \<longrightarrow>
           (out = Spawned) = (trigger \<and> good_loop E (cells t) k)"
    by (subst (1 2) outcome) simp
  show "out = Stopped \<longrightarrow> Suc k = length (split_log E s) \<and> split E s = t"
  proof
    assume stopped: "out = Stopped"
    with k run_stopped_last [of k E "[0..<cells_size s]" s]
    have last: "Suc k = length (split_log E s)"
      by (simp add: split_log_eq_run out_def)
    from stopped cases have "t' = t" by simp
    with last split_final [of E s] show "Suc k = length (split_log E s) \<and> split E s = t"
      by (simp add: t'_def)
  qed
  show "out = Spawned \<longrightarrow> cells_size t' = cells_size t + 1 \<and>
            ((\<forall>cs p ch l a. index (Particle_split E cs p ch l a) = index (cs a)) \<longrightarrow>
               index (cells t' (cells_size t)) = int (cells_size t))"
  proof (intro impI conjI)
    assume sp: "out = Spawned"
    with cases show "cells_size t' = cells_size t + 1" by simp
    assume "\<forall>cs p ch l a. index (Particle_split E cs p ch l a) = index (cs a)"
    then show "index (cells t' (cells_size t)) = int (cells_size t)"
      using split_step_new_index [of E k t "fst (snd ?st)" t'] st sp by simp
  qed
  show "out \<noteq> Spawned \<longrightarrow> cells_size t' = cells_size t"
    using cases by simp
  show "out = Skipped \<or> out = Passed \<or> out = Stopped \<longrightarrow> t' = t"
    using cases by blast
  show "cells_size t = MAX_POP E \<longrightarrow> split E s = t"
    using split_at_cap [OF k] by (simp add: t_def)
qed


text \<open>
  C2. \<open>split_log\<close> lists the iterations the loop of \<open>split\<close> ran. They are the indices
  \<open>0, 1, ...\<close> in order, all below the population \<open>cells_size s\<close> at the start, and they are
  all of these indices unless the last iteration returned (\<open>Stopped\<close>); the cells appended
  get addresses from \<open>cells_size s\<close> on, so none of them is visited. With \<open>t\<close> the state in
  which the loop reaches \<open>k\<close> and \<open>t'\<close> the state it leaves (the loop starts in \<open>s\<close>, each
  iteration is \<open>split_step\<close> with \<^verbatim>\<open>new_pop\<close> equal to the population, and \<open>split\<close> returns
  the state the last iteration leaves): a frozen or environs cell is skipped; the iteration returns iff the cell is neither, its food is above the threshold
  or its ring longer than \<open>max_degree\<close>, and the population is \<open>MAX_POP\<close>, and it is then
  the last iteration and \<open>split\<close> returns \<open>t\<close>; a cell that is neither frozen nor environs,
  where the loop did not return, splits iff its food is above the threshold or its ring
  longer than \<open>max_degree\<close>, and its ring is a good loop; a split appends exactly one cell,
  at the address \<open>cells_size t\<close>, whose index is \<open>cells_size t\<close> (when \<^verbatim>\<open>Particle::split\<close>
  keeps the indices); every other iteration leaves the population as it is; and once the
  population is \<open>MAX_POP\<close> the phase changes nothing more (\<open>split\<close> returns \<open>t\<close>).
\<close>

theorem split_phase:
  fixes E :: "('r::ord) Env"
  shows
  "map fst (split_log E s) = [0..<length (split_log E s)] \<and>
   length (split_log E s) \<le> cells_size s \<and>
   (length (split_log E s) < cells_size s \<longrightarrow>
      split_log E s \<noteq> [] \<and> snd (last (split_log E s)) = Stopped) \<and>
   split_before E s 0 = s \<and>
   split E s = split_before E s (length (split_log E s)) \<and>
   cells_size (split E s) =
     cells_size s + length (filter (\<lambda>e. snd e = Spawned) (split_log E s)) \<and>
   (\<forall>k<length (split_log E s).
      let t = split_before E s k; t' = split_before E s (Suc k); c = cells t k;
          out = snd (split_log E s ! k);
          trigger = (threshold (param t) < food c \<or> max_degree (param t) < int (length (links c)))
      in k < cells_size s \<and> cells_size s \<le> cells_size t \<and> param t = param s \<and>
         split_step E k (cells_size t) t = (out, cells_size t', t') \<and>
         (out = Skipped) = (frozen c \<or> environs c) \<and>
         (out = Stopped) = (\<not> frozen c \<and> \<not> environs c \<and> trigger \<and> cells_size t = MAX_POP E) \<and>
         (\<not> frozen c \<and> \<not> environs c \<and> out \<noteq> Stopped \<longrightarrow>
            (out = Spawned) = (trigger \<and> good_loop E (cells t) k)) \<and>
         (out = Stopped \<longrightarrow> Suc k = length (split_log E s) \<and> split E s = t) \<and>
         (out = Spawned \<longrightarrow> cells_size t' = cells_size t + 1 \<and>
            ((\<forall>cs p ch l a. index (Particle_split E cs p ch l a) = index (cs a)) \<longrightarrow>
               index (cells t' (cells_size t)) = int (cells_size t))) \<and>
         (out \<noteq> Spawned \<longrightarrow> cells_size t' = cells_size t) \<and>
         (out = Skipped \<or> out = Passed \<or> out = Stopped \<longrightarrow> t' = t) \<and>
         (cells_size t = MAX_POP E \<longrightarrow> split E s = t))"
proof -
  have short: "length (split_log E s) < cells_size s \<longrightarrow>
      split_log E s \<noteq> [] \<and> snd (last (split_log E s)) = Stopped"
    using split_log_short [of E s] by blast
  have each: "let t = split_before E s k; t' = split_before E s (Suc k); c = cells t k;
          out = snd (split_log E s ! k);
          trigger = (threshold (param t) < food c \<or> max_degree (param t) < int (length (links c)))
      in k < cells_size s \<and> cells_size s \<le> cells_size t \<and> param t = param s \<and>
         split_step E k (cells_size t) t = (out, cells_size t', t') \<and>
         (out = Skipped) = (frozen c \<or> environs c) \<and>
         (out = Stopped) = (\<not> frozen c \<and> \<not> environs c \<and> trigger \<and> cells_size t = MAX_POP E) \<and>
         (\<not> frozen c \<and> \<not> environs c \<and> out \<noteq> Stopped \<longrightarrow>
            (out = Spawned) = (trigger \<and> good_loop E (cells t) k)) \<and>
         (out = Stopped \<longrightarrow> Suc k = length (split_log E s) \<and> split E s = t) \<and>
         (out = Spawned \<longrightarrow> cells_size t' = cells_size t + 1 \<and>
            ((\<forall>cs p ch l a. index (Particle_split E cs p ch l a) = index (cs a)) \<longrightarrow>
               index (cells t' (cells_size t)) = int (cells_size t))) \<and>
         (out \<noteq> Spawned \<longrightarrow> cells_size t' = cells_size t) \<and>
         (out = Skipped \<or> out = Passed \<or> out = Stopped \<longrightarrow> t' = t) \<and>
         (cells_size t = MAX_POP E \<longrightarrow> split E s = t)"
    if k: "k < length (split_log E s)" for k
    unfolding Let_def
  proof (intro conjI)
    show "k < cells_size s"
      using k split_log_length [of E s] by simp
  qed (rule split_before_frame split_visit [OF k])+
  show ?thesis
    apply (intro conjI)
          apply (rule split_log_visits)
         apply (rule split_log_length)
        apply (rule short)
       apply (simp add: split_before_def split_run_def)
      apply (rule split_final)
     apply (rule split_size)
    apply (intro allI impI)
    apply (erule each)
    done
qed

lemma triangle_log:
  "split_log E0 triangle_example = [(0, Spawned), (1, Passed), (2, Passed)]"
  by (simp add: split_log_def split_step_def triangle_example_def sim_of_def P0_def blank_def
      E0_def ring_good_def connected_to_def get_num_links_def push_back_def set_cell_def
      new_Particle_def halving_split_def upt_rec Let_def)

theorem split_phase_witness:
  "(0::nat) < length (split_log E0 triangle_example) \<and>
   snd (split_log E0 triangle_example ! 0) = Spawned \<and>
   (\<forall>cs p ch l a. index (Particle_split E0 cs p ch l a) = index (cs a)) \<and>
   cells_size (split_before E0 triangle_example 0) = 3 \<and>
   cells_size (split_before E0 triangle_example (Suc 0)) = 4 \<and>
   index (cells (split_before E0 triangle_example (Suc 0)) 3) = 3 \<and>
   cells_size (split E0 triangle_example) = 4"
proof -
  let ?s = triangle_example
  have k: "(0::nat) < length (split_log E0 ?s)" and out: "snd (split_log E0 ?s ! 0) = Spawned"
    by (simp_all add: triangle_log)
  have keep: "\<forall>cs p ch l a. index (Particle_split E0 cs p ch l a) = index (cs a)"
    by (simp add: E0_def halving_split_def)
  have t0: "cells_size (split_before E0 ?s 0) = 3"
    by (simp add: split_before_def split_run_def triangle_example_def sim_of_def)
  from split_phase [of E0 ?s] have
    size: "cells_size (split E0 ?s) =
       cells_size ?s + length (filter (\<lambda>e. snd e = Spawned) (split_log E0 ?s))"
    and each: "\<forall>k<length (split_log E0 ?s).
       (snd (split_log E0 ?s ! k) = Spawned \<longrightarrow>
          cells_size (split_before E0 ?s (Suc k)) = cells_size (split_before E0 ?s k) + 1 \<and>
          ((\<forall>cs p ch l a. index (Particle_split E0 cs p ch l a) = index (cs a)) \<longrightarrow>
             index (cells (split_before E0 ?s (Suc k)) (cells_size (split_before E0 ?s k)))
               = int (cells_size (split_before E0 ?s k))))"
    unfolding Let_def by blast+
  from each k out keep t0 have
    "cells_size (split_before E0 ?s (Suc 0)) = 4"
    "index (cells (split_before E0 ?s (Suc 0)) 3) = 3"
    by auto
  moreover from size have "cells_size (split E0 ?s) = 4"
    by (simp add: triangle_log) (simp add: triangle_example_def sim_of_def)
  ultimately show ?thesis
    using k out keep t0 by blast
qed

section \<open>The population over the frames\<close>

lemma fold_keeps: "(\<And>x t. g (f x t) = g t) \<Longrightarrow> g (fold f xs s) = g s"
  by (induction xs arbitrary: s) simp_all

lemma collide_size: "cells_size (collide E c p q s) = cells_size s"
  by (simp add: collide_def set_cell_def Let_def)

lemma collision_update_cell_size:
  "cells_size (collision_update_cell E tree m idx s) = cells_size s"
  unfolding collision_update_cell_def Let_def
  by (rule fold_keeps) (rule collide_size)

lemma collision_scan_size: "cells_size (collision_scan E s) = cells_size s"
  unfolding collision_scan_def Let_def collision_update_cell_range_def
  by (intro fold_keeps collision_update_cell_size)

lemma collision_finalize_size: "cells_size (collision_finalize E s) = cells_size s"
  unfolding collision_finalize_def
  by (rule fold_keeps) (simp add: collision_finalize_cell_def set_cell_def Let_def)

lemma collision_tree_size: "cells_size (collision_tree E s) = cells_size s"
  by (simp add: collision_tree_def collision_finalize_size collision_scan_size)

lemma add_cpu_forces_size: "cells_size (add_cpu_forces E s) = cells_size s"
  unfolding add_cpu_forces_def parallel_cpu_forces_def
  by (intro fold_keeps) (simp add: cpu_forces_cell_def set_cell_def Let_def)

lemma update_position_size: "cells_size (update_position E s) = cells_size s"
proof -
  have "cells_size (update_position E s) = cells_size (s\<lparr>frozen_num := 0\<rparr>)"
    unfolding update_position_def
    by (rule fold_keeps) (simp add: update_position_cell_def set_cell_def)
  then show ?thesis by simp
qed

lemma after_growth_size: "cells_size (after_growth E s) = cells_size s"
  by (simp add: after_growth_def Let_def update_position_size add_cpu_forces_size
      collision_tree_size)

lemma add_food_size: "cells_size (add_food E s) = cells_size s"
  by (simp add: add_food_def fold_add_food_frame)

lemma split_grows: "cells_size s \<le> cells_size (split E s)"
  by (simp add: split_size)

lemma split_bounded: "cells_size s \<le> MAX_POP E \<Longrightarrow> cells_size (split E s) \<le> MAX_POP E"
  by (simp add: split_eq_run run_bounded)

lemma update_size:
  "cells_size (update E s) =
     (if cells_size s < MAX_POP E then cells_size (split E (add_food E s)) else cells_size s)"
  by (simp add: update_def after_growth_size growth_def)

lemma update_grows: "cells_size s \<le> cells_size (update E s)"
  using split_grows [of "add_food E s" E] by (simp add: update_size add_food_size)

lemma update_bounded: "cells_size s \<le> MAX_POP E \<Longrightarrow> cells_size (update E s) \<le> MAX_POP E"
  using split_bounded [of "add_food E s" E] by (simp add: update_size add_food_size)

lemma frames_bounded:
  "cells_size s \<le> MAX_POP E \<Longrightarrow> cells_size ((update E ^^ n) s) \<le> MAX_POP E"
  by (induction n) (simp_all add: update_bounded)

text \<open>
  C3. From a population of at most \<open>MAX_POP\<close>, every frame leaves a population that is at
  least the one before and at most \<open>MAX_POP\<close>, and so does every later frame. \<open>add_food\<close>
  and the phases after the growth phase keep the population; \<open>split\<close> only appends and
  stays within \<open>MAX_POP\<close>; at a population of \<open>MAX_POP\<close> the frame skips the growth phase
  (\<open>update\<close> is \<open>after_growth\<close>) and \<open>split\<close> appends nothing.
\<close>

theorem population_monotone_bounded:
  assumes "cells_size s \<le> MAX_POP E"
  shows "cells_size s \<le> cells_size (update E s) \<and> cells_size (update E s) \<le> MAX_POP E \<and>
         (\<forall>n. cells_size ((update E ^^ n) s) \<le> cells_size ((update E ^^ Suc n) s) \<and>
              cells_size ((update E ^^ Suc n) s) \<le> MAX_POP E) \<and>
         cells_size (add_food E s) = cells_size s \<and>
         cells_size (after_growth E s) = cells_size s \<and>
         cells_size s \<le> cells_size (split E s) \<and> cells_size (split E s) \<le> MAX_POP E \<and>
         (cells_size s = MAX_POP E \<longrightarrow>
            update E s = after_growth E s \<and> cells_size (split E s) = MAX_POP E)"
proof -
  have frames: "cells_size ((update E ^^ n) s) \<le> cells_size ((update E ^^ Suc n) s) \<and>
              cells_size ((update E ^^ Suc n) s) \<le> MAX_POP E" for n
    using update_grows [of "(update E ^^ n) s" E] frames_bounded [OF assms, of "Suc n"]
    by simp
  have full: "update E s = after_growth E s \<and> cells_size (split E s) = MAX_POP E"
    if "cells_size s = MAX_POP E"
    using that split_grows [of s E] split_bounded [OF assms]
    by (simp add: update_def)
  show ?thesis
    using update_grows [of s E] update_bounded [OF assms] frames add_food_size [of E s]
      after_growth_size [of E s] split_grows [of s E] split_bounded [OF assms] full
    by blast
qed

theorem population_witness:
  "cells_size triangle_example \<le> MAX_POP E0 \<and> MAX_POP E0 = 4 \<and>
   cells_size triangle_example = 3 \<and> cells_size (update E0 triangle_example) = 4 \<and>
   cells_size ((update E0 ^^ Suc 1) triangle_example) = 4 \<and>
   update E0 (update E0 triangle_example) = after_growth E0 (update E0 triangle_example)"
proof -
  let ?s = triangle_example
  have h: "cells_size ?s \<le> MAX_POP E0" and n: "cells_size ?s = 3" and m: "MAX_POP E0 = 4"
    by (simp_all add: triangle_example_def sim_of_def E0_def)
  have u: "cells_size (update E0 ?s) = 4"
    by (simp add: update_size m n split_size add_food_size)
      (simp add: split_log_def add_food_def add_food_cell_def split_step_def
        triangle_example_def sim_of_def P0_def blank_def E0_def ring_good_def connected_to_def
        get_num_links_def push_back_def set_cell_def new_Particle_def halving_split_def upt_rec
        Let_def)
  from population_monotone_bounded [OF h] have
    "cells_size (update E0 ?s) \<le> cells_size ((update E0 ^^ Suc 1) ?s)"
    "cells_size ((update E0 ^^ Suc 1) ?s) \<le> MAX_POP E0"
    by (metis One_nat_def funpow.simps(2) funpow_0 o_apply)+
  with u m have two: "cells_size ((update E0 ^^ Suc 1) ?s) = 4"
    by simp
  from u m have "cells_size (update E0 ?s) \<le> MAX_POP E0" "cells_size (update E0 ?s) = MAX_POP E0"
    by simp_all
  from population_monotone_bounded [OF this(1)] this(2)
  have "update E0 (update E0 ?s) = after_growth E0 (update E0 ?s)"
    by blast
  with h m n u two show ?thesis
    by blast
qed


section \<open>The collision phase\<close>

lemma strike_keeps: "position (strike E c Q P) = position P" "links (strike E c Q P) = links P"
  by (simp_all add: strike_def)

lemma collide_strike:
  "collide E c p q s =
     (if p \<noteq> q \<and> q \<notin> set (links (cells s p))
      then set_cell s p (strike E c (position (cells s q)) (cells s p)) else s)"
  by (simp add: collide_def strike_def connected_to_def Let_def)

lemma fold_collide:
  "fold (collide E c p) qs s =
   set_cell s p (fold (\<lambda>q. strike E c (position (cells s q)))
                   (filter (\<lambda>q. q \<noteq> p \<and> q \<notin> set (links (cells s p))) qs) (cells s p))"
proof (induction qs arbitrary: s)
  case Nil
  show ?case by (simp add: set_cell_def)
next
  case (Cons q qs)
  show ?case
  proof (cases "p \<noteq> q \<and> q \<notin> set (links (cells s p))")
    case False
    then have "collide E c p q s = s" by (auto simp: collide_strike)
    with False Cons.IH [of s] show ?thesis by auto
  next
    case True
    let ?s1 = "set_cell s p (strike E c (position (cells s q)) (cells s p))"
    from True have step: "collide E c p q s = ?s1" by (simp add: collide_strike)
    have lk: "links (cells ?s1 p) = links (cells s p)"
      by (simp add: set_cell_def strike_keeps)
    have same: "fold (\<lambda>q'. strike E c (position (cells ?s1 q'))) xs P =
                fold (\<lambda>q'. strike E c (position (cells s q'))) xs P"
      if "p \<notin> set xs" for xs P
      using that by (induction xs arbitrary: P) (auto simp: set_cell_def)
    have "p \<notin> set (filter (\<lambda>q. q \<noteq> p \<and> q \<notin> set (links (cells s p))) qs)"
      by simp
    from same [OF this] True show ?thesis
      by (simp add: step Cons.IH [of ?s1] lk) (simp add: set_cell_def)
  qed
qed

lemma collision_update_cell_eq:
  "collision_update_cell E tree m idx s =
   set_cell s idx
     (scanned E tree (collision_radius (param s) * collision_radius (param s)) m
        (\<lambda>q. position (cells s q)) idx (cells s idx))"
  by (simp add: collision_update_cell_def Let_def fold_collide scanned_def)

lemma scanned_keeps:
  "position (scanned E tree c m pos a P) = position P"
  "links (scanned E tree c m pos a P) = links P"
proof -
  have "position (fold (\<lambda>q. strike E c (pos q)) qs P) = position P \<and>
        links (fold (\<lambda>q. strike E c (pos q)) qs P) = links P" for qs
    by (induction qs arbitrary: P) (simp_all add: strike_keeps)
  then show "position (scanned E tree c m pos a P) = position P"
    and "links (scanned E tree c m pos a P) = links P"
    by (simp_all add: scanned_def)
qed

lemma fold_collision_update_cell:
  assumes "distinct xs"
  shows "fold (collision_update_cell E tree m) xs s =
         s\<lparr>cells := (\<lambda>a. if a \<in> set xs
              then scanned E tree (collision_radius (param s) * collision_radius (param s)) m
                     (\<lambda>q. position (cells s q)) a (cells s a)
              else cells s a)\<rparr>"
  using assms
proof (induction xs arbitrary: s)
  case Nil
  show ?case by simp
next
  case (Cons x xs)
  let ?c = "collision_radius (param s) * collision_radius (param s)"
  let ?pos = "\<lambda>q. position (cells s q)"
  let ?s1 = "set_cell s x (scanned E tree ?c m ?pos x (cells s x))"
  have pos: "(\<lambda>q. position (cells ?s1 q)) = ?pos"
    by (rule ext) (simp add: set_cell_def scanned_keeps)
  have par: "param ?s1 = param s"
    by (simp add: set_cell_def)
  from Cons.prems have x: "x \<notin> set xs" and d: "distinct xs" by simp_all
  have "fold (collision_update_cell E tree m) (x # xs) s =
        fold (collision_update_cell E tree m) xs ?s1"
    by (simp add: collision_update_cell_eq)
  also have "\<dots> = ?s1\<lparr>cells := (\<lambda>a. if a \<in> set xs
              then scanned E tree ?c m ?pos a (cells ?s1 a) else cells ?s1 a)\<rparr>"
    using Cons.IH [OF d, of ?s1] by (simp only: pos par)
  also have "\<dots> = s\<lparr>cells := (\<lambda>a. if a \<in> set (x # xs)
              then scanned E tree ?c m ?pos a (cells s a) else cells s a)\<rparr>"
    using x by (auto simp: set_cell_def fun_eq_iff)
  finally show ?case .
qed

lemma fold_ranges:
  "fold (\<lambda>i t. fold f [lo i..<hi i] t) is s = fold f (concat (map (\<lambda>i. [lo i..<hi i]) is)) s"
  by (induction "is" arbitrary: s) simp_all

lemma worker_ranges_upto:
  "k \<le> w \<Longrightarrow> concat (map (\<lambda>i. [i * n div w..<(i + 1) * n div w]) [0..<k]) = [0..<k * n div w]"
proof (induction k)
  case 0
  show ?case by simp
next
  case (Suc k)
  have "k * n div w \<le> (k + 1) * n div w"
    by (intro div_le_mono mult_le_mono1) simp
  then have "[0..<k * n div w] @ [k * n div w..<(k + 1) * n div w] = [0..<(k + 1) * n div w]"
    by (metis le0 le_add_diff_inverse upt_add_eq_append)
  with Suc show ?case by simp
qed

lemma worker_ranges:
  "0 < w \<Longrightarrow> concat (map (\<lambda>i. [i * n div w..<(i + 1) * n div w]) [0..<w]) = [0..<n]"
  using worker_ranges_upto [of w w n] by simp

lemma collision_scan_eq:
  assumes "0 < num_threads s"
  shows "collision_scan E s =
         s\<lparr>cells := (\<lambda>a. if a < cells_size s
              then scanned E (build_tree s) (collision_radius (param s) * collision_radius (param s))
                     10 (\<lambda>q. position (cells s q)) a (cells s a)
              else cells s a)\<rparr>"
proof -
  have "collision_scan E s = fold (collision_update_cell E (build_tree s) 10) [0..<cells_size s] s"
    unfolding collision_scan_def Let_def collision_update_cell_range_def
    by (simp only: fold_ranges worker_ranges [OF assms])
  then show ?thesis
    by (simp add: fold_collision_update_cell)
qed


lemma fold_own_cell:
  assumes "distinct xs"
    and "\<And>a t. f a t = set_cell t a (g (param t) (cells t a))"
  shows "fold f xs s =
         s\<lparr>cells := (\<lambda>a. if a \<in> set xs then g (param s) (cells s a) else cells s a)\<rparr>"
  using assms(1)
proof (induction xs arbitrary: s)
  case Nil
  show ?case by simp
next
  case (Cons x xs)
  let ?s1 = "set_cell s x (g (param s) (cells s x))"
  from Cons.prems have x: "x \<notin> set xs" and d: "distinct xs" by simp_all
  have "fold f (x # xs) s = fold f xs ?s1"
    by (simp add: assms(2))
  also have "\<dots> = ?s1\<lparr>cells := (\<lambda>a. if a \<in> set xs then g (param ?s1) (cells ?s1 a)
                                   else cells ?s1 a)\<rparr>"
    by (rule Cons.IH [OF d])
  also have "\<dots> = s\<lparr>cells := (\<lambda>a. if a \<in> set (x # xs) then g (param s) (cells s a)
                                 else cells s a)\<rparr>"
    using x by (auto simp: set_cell_def fun_eq_iff)
  finally show ?case .
qed

lemma collision_finalize_cell_eq:
  "collision_finalize_cell E a t =
   set_cell t a (finalized E (collision_factor (param t)) (cells t a))"
  by (simp add: collision_finalize_cell_def finalized_def set_cell_def Let_def)

lemma collision_finalize_eq:
  "collision_finalize E s =
   s\<lparr>cells := (\<lambda>a. if a < cells_size s
        then finalized E (collision_factor (param s)) (cells s a) else cells s a)\<rparr>"
  unfolding collision_finalize_def
  using fold_own_cell [of "[0..<cells_size s]" "collision_finalize_cell E"
      "\<lambda>P. finalized E (collision_factor P)" s]
  by (simp add: collision_finalize_cell_eq)

lemma collision_scan_at:
  assumes "0 < num_threads s" and "a < cells_size s"
  shows "cells (collision_scan E s) a =
         scanned E (build_tree s) (collision_radius (param s) * collision_radius (param s))
           10 (\<lambda>q. position (cells s q)) a (cells s a)"
  using assms by (simp add: collision_scan_eq)

lemma collision_scan_frame:
  assumes "0 < num_threads s"
  shows "cells_size (collision_scan E s) = cells_size s" "param (collision_scan E s) = param s"
  using assms by (simp_all add: collision_scan_eq)

lemma collision_tree_at:
  assumes "0 < num_threads s" and "a < cells_size s"
  shows "cells (collision_tree E s) a =
         finalized E (collision_factor (param s))
           (scanned E (build_tree s) (collision_radius (param s) * collision_radius (param s))
              10 (\<lambda>q. position (cells s q)) a (cells s a))"
  using assms
  by (simp add: collision_tree_def collision_finalize_eq collision_scan_frame collision_scan_at)

lemma fold_strike:
  "fold (\<lambda>q. strike E c (pos q)) qs P =
   P\<lparr>collision_target :=
       fold (\<lambda>q v. v + scale (normalized E (position P - pos q))
                        ((c - to_float E (squaredNorm E (position P - pos q))) / c))
         qs (collision_target P),
     collisions := collisions P + int (length qs)\<rparr>"
proof (induction qs arbitrary: P)
  case Nil
  show ?case by simp
next
  case (Cons q qs)
  show ?case
    by (simp add: Cons.IH [of "strike E c (pos q) P"] strike_keeps) (simp add: strike_def)
qed

text \<open>
  C1. With at least one worker, for every cell \<open>p\<close> of the vector (address \<open>a\<close>): let
  \<open>found\<close> be what the capacity-limited ball query returns for the position of \<open>p\<close>, the
  squared radius \<open>c_sq\<close> and the capacity 10, and \<open>hits\<close> those \<open>q\<close> of \<open>found\<close> with \<open>q \<noteq> p\<close>
  that are not in \<open>p.links\<close>. After the scan, \<open>collision_target\<close> of \<open>p\<close> is its old value
  plus, for every hit \<open>q\<close> in turn, the normalized \<open>p - q\<close> scaled by
  \<open>(c_sq - |pq|\<^sup>2) / c_sq\<close> (the squared distance converted to \<^verbatim>\<open>float\<close>), and \<open>collisions\<close> is
  its old value plus the number of hits; nothing else of \<open>p\<close> changes. After
  \<open>collision_tree\<close>, a cell whose \<open>collisions\<close> is not 0 (in particular, is positive) has
  \<open>delta\<close> and \<open>collision_target\<close> equal to \<open>collision_target / collisions\<close> scaled by
  \<open>collision_factor\<close>, whatever \<open>delta\<close> was before; a cell with \<open>collisions = 0\<close> keeps
  its \<open>delta\<close>.
\<close>

theorem collision_phase:
  fixes E :: "('r::{plus,minus,times,inverse}) Env"
  assumes "0 < num_threads s" and "a < cells_size s"
  shows "let c_sq = collision_radius (param s) * collision_radius (param s);
             p = cells s a;
             found = searchCapacityLimitedBall E (build_tree s) (position p) c_sq 10;
             hits = filter (\<lambda>q. q \<noteq> a \<and> q \<notin> set (links p)) found;
             push = (\<lambda>q. scale (normalized E (position p - position (cells s q)))
                      ((c_sq - to_float E (squaredNorm E (position p - position (cells s q))))
                        / c_sq));
             target = fold (\<lambda>q v. v + push q) hits (collision_target p);
             n = collisions p + int (length hits);
             mean = scale (vdiv target (to_float E (from_int E n))) (collision_factor (param s))
         in cells (collision_scan E s) a = p\<lparr>collision_target := target, collisions := n\<rparr> \<and>
            cells (collision_tree E s) a =
              (if n \<noteq> 0 then p\<lparr>collision_target := mean, collisions := n, delta := mean\<rparr>
               else p\<lparr>collision_target := target, collisions := n\<rparr>) \<and>
            (0 < n \<longrightarrow> delta (cells (collision_tree E s) a) = mean)"
  unfolding Let_def collision_scan_at [OF assms] collision_tree_at [OF assms]
  by (simp add: scanned_def fold_strike finalized_def)


theorem collision_phase_witness:
  "0 < num_threads pair_example \<and> (1::nat) < cells_size pair_example \<and>
   cells (collision_scan E0 pair_example) 1 =
     (cells pair_example 1)\<lparr>collision_target := Vec3 (5 / 9) 0 0, collisions := 1\<rparr> \<and>
   cells (collision_tree E0 pair_example) 1 =
     (cells pair_example 1)\<lparr>collision_target := Vec3 (5 / 9) 0 0, collisions := 1,
        delta := Vec3 (5 / 9) 0 0\<rparr>"
proof -
  have h: "0 < num_threads pair_example" "(1::nat) < cells_size pair_example"
    by (simp_all add: pair_example_def sim_of_def)
  show ?thesis
    using collision_phase [OF h, of E0] h
    by (simp add: Let_def pair_example_def sim_of_def P0_def blank_def E0_def brute_ball_def
        build_tree_def exact_squaredNorm_def exact_normalized_def minus_vec3_def plus_vec3_def
        scale_def vdiv_def origin_def upt_rec)
qed


section \<open>Frozen cells\<close>

lemma add_food_inert:
  assumes "a < cells_size s" and "frozen (cells s a) \<or> environs (cells s a)"
  shows "cells (add_food E s) a = (cells s a)\<lparr>food := 0\<rparr>"
proof -
  let ?t = "fold (add_food_cell E) [0..<a] s"
  from assms(2) have "frozen (cells ?t a) \<or> environs (cells ?t a)"
    by (simp add: add_food_before)
  then have "cells (add_food_cell E a ?t) a = (cells ?t a)\<lparr>food := 0\<rparr>"
    by (rule add_food_cell_inert)
  then show ?thesis
    by (simp add: add_food_at [OF assms(1)] add_food_before)
qed

lemma split_step_skips:
  "frozen (cells s i) \<or> environs (cells s i) \<Longrightarrow> split_step E i np s = (Skipped, np, s)"
  by (simp add: split_step_def)

lemma cpu_forces_cell_frozen:
  "frozen (cells s a) \<Longrightarrow> cells (cpu_forces_cell E idx s) a = cells s a"
  by (auto simp: cpu_forces_cell_def set_cell_def Let_def)

lemma fold_cpu_forces_frozen:
  "frozen (cells s a) \<Longrightarrow> cells (fold (cpu_forces_cell E) xs s) a = cells s a"
  by (induction xs arbitrary: s) (simp_all add: cpu_forces_cell_frozen)

lemma add_cpu_forces_frozen:
  "frozen (cells s a) \<Longrightarrow> cells (add_cpu_forces E s) a = cells s a"
  unfolding add_cpu_forces_def parallel_cpu_forces_def fold_ranges
  by (rule fold_cpu_forces_frozen)

lemma update_position_cell_frozen:
  "frozen (cells s a) \<Longrightarrow> cells (update_position_cell E idx s) a = cells s a"
  by (auto simp: update_position_cell_def set_cell_def)

lemma fold_update_position_frozen:
  "frozen (cells s a) \<Longrightarrow> cells (fold (update_position_cell E) xs s) a = cells s a"
  by (induction xs arbitrary: s) (simp_all add: update_position_cell_frozen)

lemma update_position_frozen:
  "frozen (cells s a) \<Longrightarrow> cells (update_position E s) a = cells s a"
  using fold_update_position_frozen [of "s\<lparr>frozen_num := 0\<rparr>" a E "[0..<cells_size s]"]
  by (simp add: update_position_def)

lemma collision_finalize_at:
  "a < cells_size s \<Longrightarrow>
   cells (collision_finalize E s) a = finalized E (collision_factor (param s)) (cells s a)"
  by (simp add: collision_finalize_eq)

lemma collision_tree_flag: "frozen (cells (collision_tree E s) a) = frozen (cells s a)"
proof -
  have c: "frozen (cells (collide E c p q t) a) = frozen (cells t a)" for c p q t
    by (simp add: collide_def set_cell_def Let_def)
  have u: "frozen (cells (collision_update_cell E tree m idx t) a) = frozen (cells t a)"
    for tree m idx t
    unfolding collision_update_cell_def Let_def
    by (rule fold_keeps [where g = "\<lambda>t. frozen (cells t a)"]) (rule c)
  have r: "frozen (cells (collision_update_cell_range E lo hi tree m t) a) = frozen (cells t a)"
    for lo hi tree m t
    unfolding collision_update_cell_range_def
    by (rule fold_keeps [where g = "\<lambda>t. frozen (cells t a)"]) (rule u)
  have scan: "frozen (cells (collision_scan E s) a) = frozen (cells s a)"
    unfolding collision_scan_def Let_def
    by (rule fold_keeps [where g = "\<lambda>t. frozen (cells t a)"]) (rule r)
  have "frozen (cells (collision_finalize E t) a) = frozen (cells t a)" for t
    unfolding collision_finalize_def
    by (rule fold_keeps [where g = "\<lambda>t. frozen (cells t a)"])
      (simp add: collision_finalize_cell_def set_cell_def Let_def)
  with scan show ?thesis
    by (simp add: collision_tree_def)
qed

lemma split_step_frozen:
  assumes "\<forall>cs p ch l b. frozen (cs b) \<longrightarrow> frozen (Particle_split E cs p ch l b)"
    and "frozen (cells s a)" and "a < cells_size s"
  shows "frozen (cells (snd (snd (split_step E i np s))) a)"
  using assms
  by (auto simp: split_step_def set_cell_def push_back_def Let_def split: Split.splits)

lemma split_loop_frozen:
  assumes "\<forall>cs p ch l b. frozen (cs b) \<longrightarrow> frozen (Particle_split E cs p ch l b)"
  shows "frozen (cells s a) \<Longrightarrow> a < cells_size s \<Longrightarrow>
         frozen (cells (snd (split_loop E xs np s)) a)"
proof (induction xs arbitrary: s np)
  case Nil
  then show ?case by simp
next
  case (Cons i xs)
  obtain out np' s' where st: "split_step E i np s = (out, np', s')"
    by (cases "split_step E i np s") auto
  from split_step_frozen [OF assms Cons.prems, of i np] st have f: "frozen (cells s' a)"
    by simp
  from split_step_cases [OF st] Cons.prems(2) have "a < cells_size s'"
    by (cases "out = Spawned") auto
  from Cons.IH [OF f this, of np'] f st show ?case
    by (cases out) (auto split: prod.splits)
qed


lemma update_frozen:
  fixes E :: "('r::{zero,plus,minus,times,inverse,ord}) Env"
  assumes "\<forall>cs p ch l b. frozen (cs b) \<longrightarrow> frozen (Particle_split E cs p ch l b)"
    and "frozen (cells s a)" and "a < cells_size s"
  shows "frozen (cells (update E s) a)"
proof -
  let ?g = "if cells_size s < MAX_POP E then growth E s else s"
  have fed: "frozen (cells (add_food E s) a)" "a < cells_size (add_food E s)"
    using assms(2,3) by (simp_all add: add_food_def fold_add_food_flags fold_add_food_frame)
  have "frozen (cells (growth E s) a)"
    unfolding growth_def split_def by (rule split_loop_frozen [OF assms(1) fed])
  with assms(2) have g: "frozen (cells ?g a)" by simp
  then have "frozen (cells (collision_tree E ?g) a)"
    by (simp add: collision_tree_flag)
  then have "frozen (cells (add_cpu_forces E (collision_tree E ?g)) a)"
    by (simp add: add_cpu_forces_frozen)
  then have "frozen (cells (update_position E (add_cpu_forces E (collision_tree E ?g))) a)"
    by (simp add: update_position_frozen)
  then show ?thesis
    by (simp add: update_def after_growth_def Let_def)
qed

lemma frames_frozen:
  fixes E :: "('r::{zero,plus,minus,times,inverse,ord}) Env"
  assumes "\<forall>cs p ch l b. frozen (cs b) \<longrightarrow> frozen (Particle_split E cs p ch l b)"
    and "frozen (cells s a)" and "a < cells_size s"
  shows "frozen (cells ((update E ^^ n) s) a) \<and> a < cells_size ((update E ^^ n) s)"
proof (induction n)
  case 0
  from assms(2,3) show ?case by simp
next
  case (Suc n)
  then have "frozen (cells (update E ((update E ^^ n) s)) a)"
    using update_frozen [OF assms(1)] by blast
  moreover have "a < cells_size (update E ((update E ^^ n) s))"
    using Suc update_grows [of "(update E ^^ n) s" E] by simp
  ultimately show ?case by simp
qed

text \<open>
  C4 (as amended). A frozen cell of the vector is ignored by the growth phase (\<open>add_food\<close>
  sets its food to 0 and adds nothing; the loop of \<open>split\<close> skips it, whatever its food and
  degree), by the force phase (\<open>calculate\<close> is not called on it: the cell is unchanged) and
  by integration (\<open>Particle_update\<close> is not called on it: the cell is unchanged). Collision
  finalization does not ignore it: like every cell, when its \<open>collisions\<close> is not 0 its
  \<open>collision_target\<close> is averaged and scaled and assigned to its \<open>delta\<close>. When
  \<^verbatim>\<open>Particle::split\<close> never clears a \<open>frozen\<close> flag, a frozen cell is frozen in every later
  frame, so all this holds in every later frame.
\<close>

theorem frozen_cell_ignored:
  fixes E :: "('r::{zero,plus,minus,times,inverse,ord}) Env"
  assumes "frozen (cells s a)" and "a < cells_size s"
  shows "cells (add_food E s) a = (cells s a)\<lparr>food := 0\<rparr> \<and>
         split_step E a np s = (Skipped, np, s) \<and>
         cells (add_cpu_forces E s) a = cells s a \<and>
         cells (update_position E s) a = cells s a \<and>
         cells (collision_finalize E s) a =
           (if collisions (cells s a) \<noteq> 0
            then (cells s a)
              \<lparr>collision_target :=
                 scale (vdiv (collision_target (cells s a))
                          (to_float E (from_int E (collisions (cells s a)))))
                   (collision_factor (param s)),
               delta :=
                 scale (vdiv (collision_target (cells s a))
                          (to_float E (from_int E (collisions (cells s a)))))
                   (collision_factor (param s))\<rparr>
            else cells s a) \<and>
         ((\<forall>cs p ch l b. frozen (cs b) \<longrightarrow> frozen (Particle_split E cs p ch l b)) \<longrightarrow>
            (\<forall>n. frozen (cells ((update E ^^ n) s) a) \<and> a < cells_size ((update E ^^ n) s)))"
proof (intro conjI impI allI)
  show "cells (add_food E s) a = (cells s a)\<lparr>food := 0\<rparr>"
    using assms by (simp add: add_food_inert)
  show "split_step E a np s = (Skipped, np, s)"
    using assms(1) by (simp add: split_step_skips)
  show "cells (add_cpu_forces E s) a = cells s a"
    using assms(1) by (rule add_cpu_forces_frozen)
  show "cells (update_position E s) a = cells s a"
    using assms(1) by (rule update_position_frozen)
  show "cells (collision_finalize E s) a =
           (if collisions (cells s a) \<noteq> 0
            then (cells s a)
              \<lparr>collision_target :=
                 scale (vdiv (collision_target (cells s a))
                          (to_float E (from_int E (collisions (cells s a)))))
                   (collision_factor (param s)),
               delta :=
                 scale (vdiv (collision_target (cells s a))
                          (to_float E (from_int E (collisions (cells s a)))))
                   (collision_factor (param s))\<rparr>
            else cells s a)"
    using assms(2) by (simp add: collision_finalize_at finalized_def)
next
  fix n
  assume keep: "\<forall>cs p ch l b. frozen (cs b) \<longrightarrow> frozen (Particle_split E cs p ch l b)"
  from frames_frozen [OF keep assms] show "frozen (cells ((update E ^^ n) s) a)"
    and "a < cells_size ((update E ^^ n) s)"
    by simp_all
qed


theorem frozen_cell_ignored_witness:
  "frozen (cells pair_example 0) \<and> (0::nat) < cells_size pair_example \<and>
   food (cells pair_example 0) = 5 \<and>
   cells (add_food E0 pair_example) 0 = (cells pair_example 0)\<lparr>food := 0\<rparr> \<and>
   cells (add_cpu_forces E0 pair_example) 0 = cells pair_example 0 \<and>
   cells (update_position E0 pair_example) 0 = cells pair_example 0 \<and>
   frozen (cells ((update E0 ^^ 3) pair_example) 0)"
proof -
  have h: "frozen (cells pair_example 0)" "(0::nat) < cells_size pair_example"
    and f: "food (cells pair_example 0) = 5"
    by (simp_all add: pair_example_def sim_of_def blank_def)
  have keep: "\<forall>cs p ch l b. frozen (cs b) \<longrightarrow> frozen (Particle_split E0 cs p ch l b)"
    by (simp add: E0_def halving_split_def)
  from frozen_cell_ignored [OF h, of E0] keep h f show ?thesis
    by blast
qed

text \<open>
  The claim C4 says that collision finalization ignores a frozen cell. In \<open>pair_example\<close>
  cell 0 is frozen, at the origin, with \<open>delta = 0\<close>; cell 1 is at \<open>(2, 0, 0)\<close>, not linked
  to it, within the collision radius 3. The scan counts one collision for cell 0 and
  \<open>collision_tree\<close> assigns \<open>delta = (-5/9, 0, 0)\<close> to it.
\<close>

theorem frozen_cell_gets_collision_delta:
  "frozen (cells pair_example 0) \<and> delta (cells pair_example 0) = Vec3 0 0 0 \<and>
   collisions (cells (collision_scan E0 pair_example) 0) = 1 \<and>
   delta (cells (collision_tree E0 pair_example) 0) = Vec3 (- 5 / 9) 0 0"
proof -
  have h: "0 < num_threads pair_example" "(0::nat) < cells_size pair_example"
    by (simp_all add: pair_example_def sim_of_def)
  have scan: "cells (collision_scan E0 pair_example) 0 =
      (cells pair_example 0)\<lparr>collision_target := Vec3 (- 5 / 9) 0 0, collisions := 1\<rparr>"
    unfolding collision_scan_at [OF h]
    by (simp add: scanned_def strike_def pair_example_def sim_of_def P0_def blank_def E0_def
        brute_ball_def build_tree_def exact_squaredNorm_def exact_normalized_def minus_vec3_def
        plus_vec3_def scale_def vdiv_def origin_def upt_rec)
  have tree: "cells (collision_tree E0 pair_example) 0 =
      finalized E0 (collision_factor (param pair_example))
        (cells (collision_scan E0 pair_example) 0)"
    by (simp add: collision_tree_at [OF h] collision_scan_at [OF h])
  have fin: "finalized E0 (collision_factor (param pair_example))
        (cells (collision_scan E0 pair_example) 0) =
      (cells pair_example 0)\<lparr>collision_target := Vec3 (- 5 / 9) 0 0, collisions := 1,
         delta := Vec3 (- 5 / 9) 0 0\<rparr>"
    unfolding scan
    by (simp add: finalized_def pair_example_def sim_of_def P0_def blank_def E0_def scale_def
        vdiv_def)
  from tree fin have "cells (collision_tree E0 pair_example) 0 =
      (cells pair_example 0)\<lparr>collision_target := Vec3 (- 5 / 9) 0 0, collisions := 1,
         delta := Vec3 (- 5 / 9) 0 0\<rparr>"
    by simp
  with scan show ?thesis
    by (simp add: pair_example_def sim_of_def blank_def origin_def)
qed


section \<open>The mesh snapshot: rows and faces\<close>

lemma fill_rows_ok:
  assumes "\<forall>a\<in>set as. 0 \<le> index (cells s a) \<and> nat (index (cells s a)) < length V"
    and "length N = length V"
    and "distinct (map (\<lambda>a. index (cells s a)) as)"
  shows "\<exists>V' N'. fill_rows s as V N = Some (V', N') \<and> length V' = length V \<and>
           length N' = length V \<and>
           (\<forall>a\<in>set as. V' ! nat (index (cells s a)) = Some (position (cells s a)) \<and>
                        N' ! nat (index (cells s a)) = Some (normal (cells s a))) \<and>
           (\<forall>r. r \<notin> (\<lambda>a. nat (index (cells s a))) ` set as \<longrightarrow> V' ! r = V ! r \<and> N' ! r = N ! r)"
  using assms
proof (induction as arbitrary: V N)
  case Nil
  then show ?case by simp
next
  case (Cons a as)
  let ?r = "nat (index (cells s a))"
  let ?V = "V[?r := Some (position (cells s a))]"
  let ?N = "N[?r := Some (normal (cells s a))]"
  from Cons.prems have r: "0 \<le> index (cells s a)" "?r < length V" "?r < length N"
    by simp_all
  have pre: "\<forall>b\<in>set as. 0 \<le> index (cells s b) \<and> nat (index (cells s b)) < length ?V"
    "length ?N = length ?V" "distinct (map (\<lambda>a. index (cells s a)) as)"
    using Cons.prems by simp_all
  from Cons.IH [OF pre] obtain V' N' where
    res: "fill_rows s as ?V ?N = Some (V', N')" and
    len: "length V' = length V" "length N' = length V" and
    hit: "\<forall>b\<in>set as. V' ! nat (index (cells s b)) = Some (position (cells s b)) \<and>
                      N' ! nat (index (cells s b)) = Some (normal (cells s b))" and
    miss: "\<forall>r. r \<notin> (\<lambda>a. nat (index (cells s a))) ` set as \<longrightarrow> V' ! r = ?V ! r \<and> N' ! r = ?N ! r"
    by auto
  have fresh: "?r \<notin> (\<lambda>a. nat (index (cells s a))) ` set as"
  proof
    assume "?r \<in> (\<lambda>a. nat (index (cells s a))) ` set as"
    then obtain b where b: "b \<in> set as" "nat (index (cells s b)) = ?r" by auto
    from Cons.prems(1) b(1) have "0 \<le> index (cells s b)" by simp
    with b(2) r(1) have "index (cells s b) = index (cells s a)"
      by (simp add: eq_nat_nat_iff)
    moreover from Cons.prems(3) have
      "index (cells s a) \<notin> (\<lambda>a. index (cells s a)) ` set as" by simp
    moreover from b(1) have
      "index (cells s b) \<in> (\<lambda>a. index (cells s a)) ` set as" by (rule imageI)
    ultimately show False by simp
  qed
  with miss r have own: "V' ! ?r = Some (position (cells s a))" "N' ! ?r = Some (normal (cells s a))"
    by simp_all
  have other: "\<forall>r. r \<notin> (\<lambda>a. nat (index (cells s a))) ` set (a # as) \<longrightarrow> V' ! r = V ! r \<and> N' ! r = N ! r"
    using miss by auto
  from res r have "fill_rows s (a # as) V N = Some (V', N')"
    by (simp add: Let_def)
  with len hit own other show ?case
    by auto
qed

lemma cell_faces_ok:
  "cell_faces s p todo (map Some written @ replicate (length todo + m) None) (length written) =
   Some (map Some (written @ map (face_row s p) todo) @ replicate m None,
         length written + length todo)"
proof (induction todo arbitrary: written)
  case Nil
  show ?case by simp
next
  case (Cons i todo)
  have "(map Some written @ replicate (length (i # todo) + m) None)[length written := Some (face_row s p i)]
        = map Some (written @ [face_row s p i]) @ replicate (length todo + m) None"
    by (simp add: list_update_append)
  with Cons.IH [of "written @ [face_row s p i]"] show ?case
    by simp
qed

lemma all_faces_ok:
  "all_faces s todo
     (map Some written @ replicate (length (concat (map (cell_rows s) todo)) + m) None)
     (length written) =
   Some (map Some (written @ concat (map (cell_rows s) todo)) @ replicate m None,
         length written + length (concat (map (cell_rows s) todo)))"
proof (induction todo arbitrary: written)
  case Nil
  show ?case by simp
next
  case (Cons a todo)
  let ?k = "length (links (cells s a))"
  have len: "length (cell_rows s a) = ?k" by (simp add: cell_rows_def)
  have "cell_faces s (cells s a) [0..<?k]
          (map Some written @ replicate (length (concat (map (cell_rows s) (a # todo))) + m) None)
          (length written) =
        Some (map Some (written @ cell_rows s a) @
                replicate (length (concat (map (cell_rows s) todo)) + m) None,
              length written + ?k)"
    using cell_faces_ok [of s "cells s a" "[0..<?k]" written
        "length (concat (map (cell_rows s) todo)) + m"]
    by (simp add: cell_rows_def add.assoc)
  with Cons.IH [of "written @ cell_rows s a"] len show ?case
    by (simp add: add.assoc)
qed

lemma num_faces_fold:
  "fold (\<lambda>a k. k + length (links (cells s a))) as k0 =
   k0 + length (concat (map (cell_rows s) as))"
  by (induction as arbitrary: k0) (simp_all add: cell_rows_def)

lemma faces_ok:
  "all_faces s [0..<n]
     (replicate (fold (\<lambda>a k. k + length (links (cells s a))) [0..<n] 0) None) 0 =
   Some (map Some (concat (map (cell_rows s) [0..<n])),
         length (concat (map (cell_rows s) [0..<n])))"
  using all_faces_ok [of s "[0..<n]" "[]" 0] by (simp add: num_faces_fold)


lemma rows_all_written:
  assumes "\<forall>a<n. 0 \<le> f a \<and> f a < int n" and "inj_on f {0..<n}" and "r < n"
  shows "\<exists>a<n. nat (f a) = r"
proof -
  let ?g = "\<lambda>a. nat (f a)"
  have "inj_on ?g {0..<n}"
    using assms(1,2) by (auto simp: inj_on_def eq_nat_nat_iff)
  moreover have "?g ` {0..<n} \<subseteq> {0..<n}"
    using assms(1) by auto
  ultimately have "?g ` {0..<n} = {0..<n}"
    by (simp add: card_image card_subset_eq)
  with assms(3) have "r \<in> ?g ` {0..<n}" by simp
  then show ?thesis by auto
qed

text \<open>
  C8. When the indices of the cells are distinct and lie in \<open>0 .. |cells| - 1\<close> (the data
  model's index stability gives \<open>cells[i].index = i\<close>), \<open>set_matrices\<close> returns matrices
  \<open>V\<close>, \<open>N\<close> and \<open>F\<close>: \<open>V\<close> and \<open>N\<close> have one row per cell, the row \<open>cell.index\<close> holds the
  position and the normal of that cell, and every row is written; \<open>F\<close> has as many rows as
  the rings have links in total, and its rows are, cell after cell and slot after slot,
  \<open>(p.index, links[(i+1) mod k].index, links[i].index)\<close>.
\<close>

theorem set_matrices_rows:
  assumes "\<forall>a<cells_size s. 0 \<le> index (cells s a) \<and> index (cells s a) < int (cells_size s)"
    and "inj_on (\<lambda>a. index (cells s a)) {0..<cells_size s}"
  shows "\<exists>V N F. set_matrices s = Some (V, N, F) \<and>
           length V = cells_size s \<and> length N = cells_size s \<and>
           (\<forall>a<cells_size s.
              V ! nat (index (cells s a)) = Some (position (cells s a)) \<and>
              N ! nat (index (cells s a)) = Some (normal (cells s a))) \<and>
           (\<forall>r<cells_size s. V ! r \<noteq> None \<and> N ! r \<noteq> None) \<and>
           length F = sum_list (map (\<lambda>a. length (links (cells s a))) [0..<cells_size s]) \<and>
           F = map Some (concat (map (\<lambda>a.
                 map (\<lambda>i. (index (cells s a),
                           index (cells s (links (cells s a) ! ((i + 1) mod length (links (cells s a))))),
                           index (cells s (links (cells s a) ! i))))
                   [0..<length (links (cells s a))]) [0..<cells_size s]))"
proof -
  let ?n = "cells_size s"
  let ?idx = "\<lambda>a. index (cells s a)"
  have range: "\<forall>a\<in>set [0..<?n]. 0 \<le> ?idx a \<and> nat (?idx a) < length (replicate ?n (None :: 'a vec3 option))"
    using assms(1) by auto
  have dist: "distinct (map ?idx [0..<?n])"
    using assms(2) by (simp add: distinct_map)
  from fill_rows_ok [OF range _ dist, of "replicate ?n None"] obtain V N where
    vn: "fill_rows s [0..<?n] (replicate ?n None) (replicate ?n None) = Some (V, N)" and
    len: "length V = ?n" "length N = ?n" and
    hit: "\<forall>a<?n. V ! nat (?idx a) = Some (position (cells s a)) \<and>
                  N ! nat (?idx a) = Some (normal (cells s a))"
    by auto
  have full: "\<forall>r<?n. V ! r \<noteq> None \<and> N ! r \<noteq> None"
  proof (intro allI impI)
    fix r assume "r < ?n"
    from rows_all_written [OF assms this] obtain a where "a < ?n" "nat (?idx a) = r"
      by auto
    with hit show "V ! r \<noteq> None \<and> N ! r \<noteq> None" by auto
  qed
  let ?F = "map Some (concat (map (cell_rows s) [0..<?n]))"
  have set: "set_matrices s = Some (V, N, ?F)"
    by (simp add: set_matrices_def Let_def vn faces_ok)
  have rows: "concat (map (cell_rows s) [0..<?n]) =
        concat (map (\<lambda>a.
                 map (\<lambda>i. (index (cells s a),
                           index (cells s (links (cells s a) ! ((i + 1) mod length (links (cells s a))))),
                           index (cells s (links (cells s a) ! i))))
                   [0..<length (links (cells s a))]) [0..<?n])"
  proof -
    have "cell_rows s = (\<lambda>a.
                 map (\<lambda>i. (index (cells s a),
                           index (cells s (links (cells s a) ! ((i + 1) mod length (links (cells s a))))),
                           index (cells s (links (cells s a) ! i))))
                   [0..<length (links (cells s a))])"
      by (simp add: fun_eq_iff cell_rows_def face_row_def Let_def)
    then show ?thesis by (simp only:)
  qed
  have count: "length ?F = sum_list (map (\<lambda>a. length (links (cells s a))) [0..<?n])"
    by (simp add: length_concat cell_rows_def comp_def)
  from set len hit full count show ?thesis
    unfolding rows by blast
qed


lemma triangle_index: "index (cells triangle_example a) = int a"
  by (simp add: triangle_example_def sim_of_def blank_def)

theorem set_matrices_witness:
  "cells_size triangle_example = 3 \<and> index (cells triangle_example 0) = 0 \<and>
   index (cells triangle_example 1) = 1 \<and> index (cells triangle_example 2) = 2 \<and>
   inj_on (\<lambda>a. index (cells triangle_example a)) {0..<cells_size triangle_example} \<and>
   (\<exists>V N F. set_matrices triangle_example = Some (V, N, F) \<and> length V = 3 \<and> length N = 3 \<and>
      V ! 0 = Some (Vec3 0 0 0) \<and>
      F = [Some (0, 2, 1), Some (0, 1, 2), Some (1, 0, 2), Some (1, 2, 0),
           Some (2, 1, 0), Some (2, 0, 1)])"
proof -
  let ?s = triangle_example
  have n: "cells_size ?s = 3"
    by (simp add: triangle_example_def sim_of_def)
  have h1: "\<forall>a<cells_size ?s. 0 \<le> index (cells ?s a) \<and> index (cells ?s a) < int (cells_size ?s)"
    by (simp add: triangle_index)
  have h2: "inj_on (\<lambda>a. index (cells ?s a)) {0..<cells_size ?s}"
    by (simp add: triangle_index inj_on_def)
  from set_matrices_rows [OF h1 h2] obtain V N F where
    r: "set_matrices ?s = Some (V, N, F)" "length V = cells_size ?s" "length N = cells_size ?s"
    and v: "\<forall>a<cells_size ?s. V ! nat (index (cells ?s a)) = Some (position (cells ?s a)) \<and>
              N ! nat (index (cells ?s a)) = Some (normal (cells ?s a))"
    and f: "F = map Some (concat (map (\<lambda>a.
                 map (\<lambda>i. (index (cells ?s a),
                           index (cells ?s (links (cells ?s a) ! ((i + 1) mod length (links (cells ?s a))))),
                           index (cells ?s (links (cells ?s a) ! i))))
                   [0..<length (links (cells ?s a))]) [0..<cells_size ?s]))"
    by blast
  from v n have "V ! nat (index (cells ?s 0)) = Some (position (cells ?s 0))"
    by simp
  then have v0: "V ! 0 = Some (Vec3 0 0 0)"
    by (simp add: triangle_index) (simp add: triangle_example_def sim_of_def blank_def origin_def)
  have "F = [Some (0, 2, 1), Some (0, 1, 2), Some (1, 0, 2), Some (1, 2, 0),
           Some (2, 1, 0), Some (2, 0, 1)]"
    unfolding f n triangle_index
    by (simp add: triangle_example_def sim_of_def blank_def upt_rec)
  with r v0 n h2 show ?thesis
    by (simp add: triangle_index)
qed


section \<open>The grid against the k-d tree\<close>

subsection \<open>What the grid path computes\<close>














subsection \<open>Agreement\<close>


subsection \<open>Rounding in the examples\<close>


































subsection \<open>Double precision in the examples\<close>



















subsection \<open>A run in which the two paths agree\<close>












subsection \<open>Runs in which the two paths differ\<close>































end
